theory Spec2Isabelle
  imports Complex_Main
begin

section \<open>Python values and built-ins used by \<^verbatim>\<open>Crawl.py\<close>\<close>

text \<open>
  Strings are lists of characters; \<^verbatim>\<open>len\<close> is \<open>length\<close>. A raised exception is
  a value carrying its \<^verbatim>\<open>str(e)\<close> text, and a call that may raise returns a sum with
  the exception on the left.
\<close>

datatype exn = Exn string

fun str_of_exn :: "exn \<Rightarrow> string" where
  "str_of_exn (Exn msg) = msg"

text \<open>\<^verbatim>\<open>xs[:n]\<close>: a negative bound counts from the end.\<close>

definition slice_to :: "int \<Rightarrow> 'a list \<Rightarrow> 'a list" where
  "slice_to n xs = (if 0 \<le> n then take (nat n) xs else take (length xs - nat (- n)) xs)"

text \<open>\<^verbatim>\<open>sep.join(parts)\<close>\<close>

fun join :: "string \<Rightarrow> string list \<Rightarrow> string" where
  "join sep [] = []"
| "join sep [x] = x"
| "join sep (x # y # ys) = x @ sep @ join sep (y # ys)"

text \<open>
  \<^verbatim>\<open>s.count(sub)\<close>: the scan of the text from the left; where \<open>sub\<close> starts at the
  current position it is counted and the scan resumes behind it, otherwise the scan moves
  on by one character. The empty \<open>sub\<close> is counted once at every position and at the end.
\<close>

function count_from :: "'a list \<Rightarrow> 'a list \<Rightarrow> nat" where
  "count_from sub [] = 0"
| "count_from sub (c # cs) =
     (if sub \<noteq> [] \<and> take (length sub) (c # cs) = sub
      then Suc (count_from sub (drop (length sub) (c # cs)))
      else count_from sub cs)"
  by pat_completeness auto
termination
  by (relation "measure (\<lambda>(sub, s). length s)") auto

definition str_count :: "'a list \<Rightarrow> 'a list \<Rightarrow> int" where
  "str_count s sub = (if sub = [] then int (length s) + 1 else int (count_from sub s))"

text \<open>
  The count in the words of the specification: the number of non-overlapping occurrences
  of \<open>sub\<close> in \<open>s\<close>. \<open>sub\<close> occurs at position \<open>i\<close> when the characters of \<open>s\<close>
  from \<open>i\<close> on start with \<open>sub\<close>; positions listed in increasing order do not overlap
  when each occurrence ends before the next begins; the number is the length of a longest
  such list.
\<close>

definition occurs_at :: "'a list \<Rightarrow> 'a list \<Rightarrow> nat \<Rightarrow> bool" where
  "occurs_at sub s i = (i + length sub \<le> length s \<and> take (length sub) (drop i s) = sub)"

fun non_overlapping :: "'a list \<Rightarrow> 'a list \<Rightarrow> nat list \<Rightarrow> bool" where
  "non_overlapping sub s [] = True"
| "non_overlapping sub s [i] = occurs_at sub s i"
| "non_overlapping sub s (i # j # js) =
     (occurs_at sub s i \<and> i < j \<and> i + length sub \<le> j \<and> non_overlapping sub s (j # js))"

definition most_non_overlapping :: "'a list \<Rightarrow> 'a list \<Rightarrow> int \<Rightarrow> bool" where
  "most_non_overlapping sub s n =
     ((\<exists>ps. non_overlapping sub s ps \<and> int (length ps) = n)
      \<and> (\<forall>ps. non_overlapping sub s ps \<longrightarrow> int (length ps) \<le> n))"

section \<open>The libraries behind the scraper\<close>

text \<open>
  \<^verbatim>\<open>urllib\<close>, \<^verbatim>\<open>requests\<close>, \<^verbatim>\<open>bs4\<close> and \<^verbatim>\<open>time\<close> are not code of the repository.
  They are a parameter of every function below: a record of the calls the scraper makes,
  over a type \<open>'d\<close> of parsed documents, a type \<open>'e\<close> of tags and a type \<open>'c\<close> of
  the characters of a page text and of the keywords, which the search only lowers, counts
  and stores.
\<close>

record parsed_url =
  scheme :: string
  netloc :: string

record ('d, 'e, 'c) lib =
  lib_urlparse :: "string \<Rightarrow> exn + parsed_url"
  lib_urljoin :: "string \<Rightarrow> string \<Rightarrow> exn + string"
  rp_can_fetch :: "string \<Rightarrow> string \<Rightarrow> exn + bool"
  session_get :: "string \<Rightarrow> exn + 'd"
  time_sleep :: "real \<Rightarrow> exn option"
  soup_select :: "'d \<Rightarrow> string \<Rightarrow> exn + 'e list"
  soup_get_text :: "'d \<Rightarrow> 'c list"
  str_lower :: "'c list \<Rightarrow> 'c list"
  soup_find_all_a :: "'d \<Rightarrow> string list"
  tag_find :: "'e \<Rightarrow> string list \<Rightarrow> 'e option"
  tag_find_parent :: "'e \<Rightarrow> string \<Rightarrow> 'e option"
  tag_find_all_hash :: "'e \<Rightarrow> 'e list"
  tag_get_text :: "'e \<Rightarrow> bool \<Rightarrow> string"
  tag_get :: "'e \<Rightarrow> string \<Rightarrow> string option"
  tag_get_class :: "'e \<Rightarrow> string list"
  tag_name :: "'e \<Rightarrow> string"

text \<open>
  \<^item> \<open>lib_urlparse url\<close>: \<^verbatim>\<open>urlparse(url)\<close>, which raises \<^verbatim>\<open>ValueError\<close> on some
    strings (unmatched brackets in the host part);
  \<^item> \<open>lib_urljoin base href\<close>: \<^verbatim>\<open>urljoin(base, href)\<close>, which parses both;
  \<^item> \<open>rp_can_fetch robots_url url\<close>: \<^verbatim>\<open>rp.set_url(robots_url); rp.read();
    rp.can_fetch('*', url)\<close> on a fresh \<^verbatim>\<open>RobotFileParser\<close>; \<^verbatim>\<open>read\<close> catches an HTTP
    error status itself, so that status is answered, not raised (\<open>robot_file_parser\<close>
    below);
  \<^item> \<open>session_get url\<close>: \<^verbatim>\<open>session.get(url, timeout=10)\<close>, \<^verbatim>\<open>raise_for_status()\<close> and the
    parse of the body by \<^verbatim>\<open>BeautifulSoup\<close>;
  \<^item> \<open>time_sleep d\<close>: \<^verbatim>\<open>time.sleep(d)\<close>;
  \<^item> \<open>soup_select\<close>: \<^verbatim>\<open>soup.select(selector)\<close>, which raises on a selector it cannot
    parse; \<open>soup_get_text\<close>: \<^verbatim>\<open>soup.get_text(separator=' ', strip=True)\<close>;
    \<open>str_lower s\<close>: \<^verbatim>\<open>s.lower()\<close>;
    \<open>soup_find_all_a\<close>: the \<^verbatim>\<open>a['href']\<close> of \<^verbatim>\<open>soup.find_all('a', href=True)\<close>;
  \<^item> \<open>tag_find e names\<close>: \<^verbatim>\<open>e.find(names)\<close>; \<open>tag_find_parent\<close>: \<^verbatim>\<open>e.find_parent(name)\<close>;
    \<open>tag_find_all_hash e\<close>: \<^verbatim>\<open>e.find_all('a', href=lambda x: x and '#' in str(x))\<close>;
  \<^item> \<open>tag_get_text e strip\<close>: \<^verbatim>\<open>e.get_text(strip=strip)\<close>; \<open>tag_get e key\<close>: \<^verbatim>\<open>e.get(key)\<close>;
    \<open>tag_get_class e\<close>: \<^verbatim>\<open>e.get('class', [])\<close>; \<open>tag_name e\<close>: \<^verbatim>\<open>e.name\<close>.
\<close>

text \<open>
  What a call does besides returning: the messages it logs, the requests it sends and the
  pauses it makes, in order.
\<close>

datatype event =
    LogWarning string
  | LogError string
  | RobotsRead string
  | HttpGet string
  | Sleep real

section \<open>\<^verbatim>\<open>class WebScraper\<close>\<close>

record scraper =
  delay :: real
  respect_robots :: bool
  max_items :: int

definition can_fetch :: "('d, 'e, 'c) lib \<Rightarrow> scraper \<Rightarrow> string \<Rightarrow> bool \<times> event list" where
  "can_fetch L S url =
     (if \<not> respect_robots S then (True, [])
      else
        (case lib_urlparse L url of
           Inl e \<Rightarrow>
             (True, [LogWarning (''Could not check robots.txt for '' @ url @ '': '' @ str_of_exn e)])
         | Inr parsed_url \<Rightarrow>
             (let robots_url = scheme parsed_url @ ''://'' @ netloc parsed_url @ ''/robots.txt'' in
              case rp_can_fetch L robots_url url of
                Inl e \<Rightarrow>
                  (True, [RobotsRead robots_url,
                          LogWarning (''Could not check robots.txt for '' @ url @ '': '' @ str_of_exn e)])
              | Inr allowed \<Rightarrow> (allowed, [RobotsRead robots_url]))))"

definition get_page :: "('d, 'e, 'c) lib \<Rightarrow> scraper \<Rightarrow> string \<Rightarrow> (exn + 'd option) \<times> event list" where
  "get_page L S url =
     (case lib_urlparse L url of
        Inl e \<Rightarrow> (Inl e, [])
      | Inr parsed_url \<Rightarrow>
          if scheme parsed_url \<noteq> ''http'' \<and> scheme parsed_url \<noteq> ''https''
          then (Inr None, [LogError (''Blocked potentially unsafe URL scheme: '' @ scheme parsed_url)])
          else
            (case can_fetch L S url of
               (allowed, ev) \<Rightarrow>
                 if \<not> allowed
                 then (Inr None, ev @ [LogWarning (''Robots.txt disallows fetching '' @ url)])
                 else
                   (case session_get L url of
                      Inl e \<Rightarrow>
                        (Inr None, ev @ [HttpGet url,
                                         LogError (''Error fetching '' @ url @ '': '' @ str_of_exn e)])
                    | Inr soup \<Rightarrow>
                        (case time_sleep L (delay S) of
                           Some e \<Rightarrow>
                             (Inr None, ev @ [HttpGet url,
                                              LogError (''Error fetching '' @ url @ '': '' @ str_of_exn e)])
                         | None \<Rightarrow> (Inr (Some soup), ev @ [HttpGet url, Sleep (delay S)])))))"

text \<open>The double quote inside a selector such as \<^verbatim>\<open>div[class*=...]\<close>.\<close>

definition dquote :: char where
  "dquote = CHR 0x22"

subsection \<open>The candidate selectors\<close>

text \<open>
  The loop over the candidate selectors, which every profile has: the first selector that
  \<^verbatim>\<open>soup.select\<close> answers with a non-empty list ends the loop (\<^verbatim>\<open>break\<close>), and the
  elements stay \<^verbatim>\<open>[]\<close> when none does. \<^verbatim>\<open>soup.select\<close> is called outside any
  \<^verbatim>\<open>try\<close>: what it raises leaves the scraping function.
\<close>

fun first_match :: "(string \<Rightarrow> exn + 'e list) \<Rightarrow> string list \<Rightarrow> exn + 'e list" where
  "first_match sel [] = Inr []"
| "first_match sel (selector # selectors) =
     (case sel selector of
        Inl e \<Rightarrow> Inl e
      | Inr found_elements \<Rightarrow>
          if found_elements \<noteq> [] then Inr found_elements else first_match sel selectors)"

text \<open>\<^verbatim>\<open>custom_selectors if custom_selectors else [...]\<close>: \<^verbatim>\<open>None\<close> and \<^verbatim>\<open>[]\<close> are falsy.\<close>

definition selectors_or :: "string list option \<Rightarrow> string list \<Rightarrow> string list" where
  "selectors_or custom_selectors defaults =
     (case custom_selectors of
        None \<Rightarrow> defaults
      | Some [] \<Rightarrow> defaults
      | Some (s # ss) \<Rightarrow> s # ss)"

text \<open>
  The loop over the elements. The body runs in a \<^verbatim>\<open>try\<close>: an exception is logged and
  the element skipped (\<^verbatim>\<open>continue\<close>). The body returns the record it appends, if any.
\<close>

fun for_each_element ::
  "('e \<Rightarrow> exn + 'r option) \<Rightarrow> string \<Rightarrow> 'e list \<Rightarrow> 'r list \<times> event list" where
  "for_each_element body msg [] = ([], [])"
| "for_each_element body msg (element # elements) =
     (case for_each_element body msg elements of
        (rs, ev) \<Rightarrow>
          (case body element of
             Inl e \<Rightarrow> (rs, LogError (msg @ str_of_exn e) # ev)
           | Inr None \<Rightarrow> (rs, ev)
           | Inr (Some r) \<Rightarrow> (r # rs, ev)))"

text \<open>\<^verbatim>\<open>x.get_text(strip=True) if x else default\<close>\<close>

definition text_or :: "('d, 'e, 'c) lib \<Rightarrow> 'e option \<Rightarrow> string \<Rightarrow> string" where
  "text_or L x dflt = (case x of None \<Rightarrow> dflt | Some t \<Rightarrow> tag_get_text L t True)"

text \<open>
  \<^verbatim>\<open>urljoin(base_url, x.get(key)) if x and x.get(key) else ""\<close>: an absent and an empty
  attribute are falsy.
\<close>

definition joined_attr ::
  "('d, 'e, 'c) lib \<Rightarrow> string \<Rightarrow> 'e option \<Rightarrow> string \<Rightarrow> exn + string" where
  "joined_attr L base_url x key =
     (case x of
        None \<Rightarrow> Inr []
      | Some t \<Rightarrow>
          (case tag_get L t key of
             None \<Rightarrow> Inr []
           | Some v \<Rightarrow> if v = [] then Inr [] else lib_urljoin L base_url v))"

text \<open>
  The text of a date element, replaced by its \<^verbatim>\<open>datetime\<close> attribute when it has a
  non-empty one.
\<close>

definition date_of :: "('d, 'e, 'c) lib \<Rightarrow> 'e option \<Rightarrow> string" where
  "date_of L x =
     (case x of
        None \<Rightarrow> []
      | Some t \<Rightarrow>
          (case tag_get L t ''datetime'' of
             None \<Rightarrow> tag_get_text L t True
           | Some v \<Rightarrow> if v = [] then tag_get_text L t True else v))"

subsection \<open>\<^verbatim>\<open>scrape_news_articles\<close>\<close>

record news_article =
  news_title :: string
  news_link :: string
  news_summary :: string
  news_date :: string
  news_author :: string
  news_source :: string
  news_type :: string

definition news_selectors :: "string list" where
  "news_selectors =
     [''article'', ''.article'', ''.news-item'', ''.post'', ''div[class*='' @ [dquote] @ ''article'' @ [dquote] @ '']'', ''.story'',
      ''.news-story'']"

definition news_body :: "('d, 'e, 'c) lib \<Rightarrow> string \<Rightarrow> 'e \<Rightarrow> exn + news_article option" where
  "news_body L base_url element =
     (let title = tag_find L element [''h1'', ''h2'', ''h3'', ''h4'', ''.title'', ''.headline''];
          title_text = text_or L title ''No title'';
          link_element = tag_find L element [''a'']
      in case joined_attr L base_url link_element ''href'' of
           Inl e \<Rightarrow> Inl e
         | Inr link \<Rightarrow>
             (let summary_element = tag_find L element [''p'', ''.summary'', ''.excerpt'', ''.description''];
                  summary = (case summary_element of
                               None \<Rightarrow> []
                             | Some t \<Rightarrow> slice_to 200 (tag_get_text L t True));
                  date_element = tag_find L element [''time'', ''.date'', ''.published'', ''.timestamp''];
                  date = date_of L date_element;
                  author_element = tag_find L element [''.author'', ''.byline'', ''.writer''];
                  author = text_or L author_element []
              in Inr (Some \<lparr>news_title = title_text, news_link = link, news_summary = summary,
                              news_date = date, news_author = author, news_source = base_url,
                              news_type = ''news''\<rparr>)))"

definition scrape_news_articles ::
  "('d, 'e, 'c) lib \<Rightarrow> scraper \<Rightarrow> string \<Rightarrow> string list option \<Rightarrow>
     (exn + news_article list) \<times> event list" where
  "scrape_news_articles L S base_url custom_selectors =
     (case get_page L S base_url of
        (Inl e, ev) \<Rightarrow> (Inl e, ev)
      | (Inr None, ev) \<Rightarrow> (Inr [], ev)
      | (Inr (Some soup), ev) \<Rightarrow>
          (case first_match (soup_select L soup) (selectors_or custom_selectors news_selectors) of
             Inl e \<Rightarrow> (Inl e, ev)
           | Inr elements \<Rightarrow>
               (case for_each_element (news_body L base_url) ''Error parsing article: ''
                       (slice_to (max_items S) elements) of
                  (articles, ev') \<Rightarrow> (Inr articles, ev @ ev'))))"

subsection \<open>\<^verbatim>\<open>scrape_product_listings\<close>\<close>

record product =
  product_name :: string
  product_price :: string
  product_rating :: string
  product_link :: string
  product_image :: string
  product_availability :: string
  product_source :: string
  product_type :: string

definition product_selectors :: "string list" where
  "product_selectors =
     [''.product'', ''.item'', ''[data-product]'', ''.product-item'', ''.product-card'',
      ''.listing-item'']"

definition product_body :: "('d, 'e, 'c) lib \<Rightarrow> string \<Rightarrow> 'e \<Rightarrow> exn + product option" where
  "product_body L base_url element =
     (let name_element = tag_find L element [''h1'', ''h2'', ''h3'', ''.product-name'', ''.title'', ''.name''];
          name = text_or L name_element ''No name'';
          price_element = tag_find L element [''.price'', ''.cost'', ''[class*='' @ [dquote] @ ''price'' @ [dquote] @ '']'', ''.amount''];
          price = text_or L price_element ''No price'';
          link_element = tag_find L element [''a'']
      in case joined_attr L base_url link_element ''href'' of
           Inl e \<Rightarrow> Inl e
         | Inr link \<Rightarrow>
             (let rating_element = tag_find L element [''.rating'', ''.stars'', ''[class*='' @ [dquote] @ ''rating'' @ [dquote] @ '']'', ''.score''];
                  rating = text_or L rating_element [];
                  img_element = tag_find L element [''img'']
              in case joined_attr L base_url img_element ''src'' of
                   Inl e \<Rightarrow> Inl e
                 | Inr image_url \<Rightarrow>
                     (let availability_element = tag_find L element [''.availability'', ''.stock'', ''.in-stock''];
                          availability = text_or L availability_element []
                      in Inr (Some \<lparr>product_name = name, product_price = price,
                                      product_rating = rating, product_link = link,
                                      product_image = image_url, product_availability = availability,
                                      product_source = base_url, product_type = ''product''\<rparr>))))"

definition scrape_product_listings ::
  "('d, 'e, 'c) lib \<Rightarrow> scraper \<Rightarrow> string \<Rightarrow> string list option \<Rightarrow>
     (exn + product list) \<times> event list" where
  "scrape_product_listings L S base_url custom_selectors =
     (case get_page L S base_url of
        (Inl e, ev) \<Rightarrow> (Inl e, ev)
      | (Inr None, ev) \<Rightarrow> (Inr [], ev)
      | (Inr (Some soup), ev) \<Rightarrow>
          (case first_match (soup_select L soup) (selectors_or custom_selectors product_selectors) of
             Inl e \<Rightarrow> (Inl e, ev)
           | Inr elements \<Rightarrow>
               (case for_each_element (product_body L base_url) ''Error parsing product: ''
                       (slice_to (max_items S) elements) of
                  (products, ev') \<Rightarrow> (Inr products, ev @ ev'))))"

subsection \<open>\<^verbatim>\<open>scrape_social_media_posts\<close>\<close>

record social_post =
  post_author :: string
  post_content :: string
  post_timestamp :: string
  post_likes :: string
  post_hashtags :: string
  post_source :: string
  post_type :: string

definition social_selectors :: "string list" where
  "social_selectors = [''.tweet'', ''.post'', ''.status'', ''[data-post]'', ''.message'', ''.update'']"

definition social_body :: "('d, 'e, 'c) lib \<Rightarrow> string \<Rightarrow> 'e \<Rightarrow> exn + social_post option" where
  "social_body L base_url element =
     (let content_element = tag_find L element [''.content'', ''.text'', ''p'', ''.message-body''];
          content = text_or L content_element [];
          author_element = tag_find L element [''.author'', ''.username'', ''.user'', ''.handle''];
          author = text_or L author_element [];
          time_element = tag_find L element [''time'', ''.timestamp'', ''.date'', ''.posted''];
          timestamp = date_of L time_element;
          likes_element = tag_find L element [''.likes'', ''.reactions'', ''.hearts''];
          likes = text_or L likes_element [];
          hashtags = map (\<lambda>t. tag_get_text L t False) (tag_find_all_hash L element)
      in Inr (Some \<lparr>post_author = author, post_content = slice_to 300 content,
                      post_timestamp = timestamp, post_likes = likes,
                      post_hashtags = join '', '' hashtags, post_source = base_url,
                      post_type = ''social''\<rparr>))"

definition scrape_social_media_posts ::
  "('d, 'e, 'c) lib \<Rightarrow> scraper \<Rightarrow> string \<Rightarrow> string list option \<Rightarrow>
     (exn + social_post list) \<times> event list" where
  "scrape_social_media_posts L S base_url custom_selectors =
     (case get_page L S base_url of
        (Inl e, ev) \<Rightarrow> (Inl e, ev)
      | (Inr None, ev) \<Rightarrow> (Inr [], ev)
      | (Inr (Some soup), ev) \<Rightarrow>
          (case first_match (soup_select L soup) (selectors_or custom_selectors social_selectors) of
             Inl e \<Rightarrow> (Inl e, ev)
           | Inr elements \<Rightarrow>
               (case for_each_element (social_body L base_url) ''Error parsing post: ''
                       (slice_to (max_items S) elements) of
                  (posts, ev') \<Rightarrow> (Inr posts, ev @ ev'))))"

subsection \<open>\<^verbatim>\<open>scrape_generic_content\<close>\<close>

record generic_content =
  generic_text :: string
  generic_link :: string
  generic_tag :: string
  generic_classes :: string
  generic_source :: string
  generic_type :: string

definition generic_selectors :: "string list" where
  "generic_selectors = [''p'', ''div'', ''span'', ''h1'', ''h2'', ''h3'', ''li'', ''td'']"

definition generic_body :: "('d, 'e, 'c) lib \<Rightarrow> string \<Rightarrow> 'e \<Rightarrow> exn + generic_content option" where
  "generic_body L base_url element =
     (let text = tag_get_text L element True
      in if length text > 20
         then
           (let link_element = (case tag_find L element [''a''] of
                                  Some a \<Rightarrow> Some a
                                | None \<Rightarrow> tag_find_parent L element ''a'')
            in case joined_attr L base_url link_element ''href'' of
                 Inl e \<Rightarrow> Inl e
               | Inr link \<Rightarrow>
                   (let classes = join '' '' (tag_get_class L element)
                    in Inr (Some \<lparr>generic_text = slice_to 500 text, generic_link = link,
                                    generic_tag = tag_name L element, generic_classes = classes,
                                    generic_source = base_url, generic_type = ''generic''\<rparr>)))
         else Inr None)"

text \<open>
  Here the matched elements are cut to \<^verbatim>\<open>max_items\<close> inside the selector loop, at the
  \<^verbatim>\<open>break\<close>; the elements stay \<^verbatim>\<open>[]\<close>, which the cut leaves as it is, when no selector
  matches.
\<close>

definition scrape_generic_content ::
  "('d, 'e, 'c) lib \<Rightarrow> scraper \<Rightarrow> string \<Rightarrow> string list option \<Rightarrow>
     (exn + generic_content list) \<times> event list" where
  "scrape_generic_content L S base_url custom_selectors =
     (case get_page L S base_url of
        (Inl e, ev) \<Rightarrow> (Inl e, ev)
      | (Inr None, ev) \<Rightarrow> (Inr [], ev)
      | (Inr (Some soup), ev) \<Rightarrow>
          (case first_match (soup_select L soup) (selectors_or custom_selectors generic_selectors) of
             Inl e \<Rightarrow> (Inl e, ev)
           | Inr found_elements \<Rightarrow>
               (let elements = slice_to (max_items S) found_elements
                in case for_each_element (generic_body L base_url) ''Error parsing content: '' elements of
                     (content, ev') \<Rightarrow> (Inr content, ev @ ev'))))"

subsection \<open>Links that do not resolve\<close>

text \<open>
  For the statements about the records: the exception, if any, that \<^verbatim>\<open>urljoin\<close> raises
  on the attribute \<open>key\<close> of the tag \<open>x\<close> (none when there is no tag, no such attribute
  or an empty one), and the link of an element of the generic profile (the first anchor in
  it, or else the anchor around it).
\<close>

definition link_error :: "('d, 'e, 'c) lib \<Rightarrow> string \<Rightarrow> 'e option \<Rightarrow> string \<Rightarrow> exn option" where
  "link_error L base_url x key =
     (case x of
        None \<Rightarrow> None
      | Some t \<Rightarrow>
          (case tag_get L t key of
             None \<Rightarrow> None
           | Some v \<Rightarrow>
               if v = [] then None
               else (case lib_urljoin L base_url v of Inl e \<Rightarrow> Some e | Inr u \<Rightarrow> None)))"

definition link_element :: "('d, 'e, 'c) lib \<Rightarrow> 'e \<Rightarrow> 'e option" where
  "link_element L element =
     (case tag_find L element [''a''] of
        Some a \<Rightarrow> Some a
      | None \<Rightarrow> tag_find_parent L element ''a'')"

subsection \<open>\<^verbatim>\<open>search_keywords_across_web\<close>\<close>

record 'c keyword_hit =
  hit_url :: string
  hit_keyword :: "'c list"
  hit_count :: int
  hit_type :: string

text \<open>The loop over the keywords on one page: the records it appends to \<^verbatim>\<open>results\<close>.\<close>

fun keyword_hits ::
  "('d, 'e, 'c) lib \<Rightarrow> string \<Rightarrow> 'c list \<Rightarrow> 'c list list \<Rightarrow> 'c keyword_hit list" where
  "keyword_hits L url text [] = []"
| "keyword_hits L url text (kw # kws) =
     (let count = str_count (str_lower L text) (str_lower L kw)
      in if count > 0
         then \<lparr>hit_url = url, hit_keyword = kw, hit_count = count, hit_type = ''keyword_search''\<rparr>
              # keyword_hits L url text kws
         else keyword_hits L url text kws)"

text \<open>
  The loop over the anchors of a page. \<^verbatim>\<open>urljoin\<close> and \<^verbatim>\<open>urlparse\<close> are called outside
  any \<^verbatim>\<open>try\<close>: what they raise ends the search, with the queue as it is by then.
\<close>

fun enqueue_links ::
  "('d, 'e, 'c) lib \<Rightarrow> string \<Rightarrow> int \<Rightarrow> string set \<Rightarrow> (string \<times> int) list \<Rightarrow> string list \<Rightarrow>
     exn option \<times> (string \<times> int) list" where
  "enqueue_links L url depth vis qu [] = (None, qu)"
| "enqueue_links L url depth vis qu (href # hrefs) =
     (case lib_urljoin L url href of
        Inl e \<Rightarrow> (Some e, qu)
      | Inr link \<Rightarrow>
          (case lib_urlparse L link of
             Inl e \<Rightarrow> (Some e, qu)
           | Inr parsed \<Rightarrow>
               enqueue_links L url depth vis
                 (if (scheme parsed = ''http'' \<or> scheme parsed = ''https'') \<and> link \<notin> vis
                  then qu @ [(link, depth + 1)] else qu)
                 hrefs))"

text \<open>
  The variables of the search, and what it has done so far (\<open>events\<close>: the events of its
  calls of \<^verbatim>\<open>get_page\<close>).
\<close>

record 'c crawl_state =
  visited :: "string set"
  results :: "'c keyword_hit list"
  queue :: "(string \<times> int) list"
  pages_crawled :: int
  events :: "event list"

text \<open>
  The body of the \<^verbatim>\<open>while\<close> loop, after \<^verbatim>\<open>url, depth = q.get()\<close> has taken the entry
  off the queue. It returns the exception that ended it, if any, and the state.
\<close>

definition crawl_body ::
  "('d, 'e, 'c) lib \<Rightarrow> scraper \<Rightarrow> 'c list list \<Rightarrow> int \<Rightarrow> string \<Rightarrow> int \<Rightarrow> 'c crawl_state \<Rightarrow>
     exn option \<times> 'c crawl_state" where
  "crawl_body L S keywords max_depth url depth st =
     (if url \<in> visited st \<or> depth > max_depth then (None, st)
      else
        (case get_page L S url of
           (r, ev) \<Rightarrow>
             (let st1 = st\<lparr>visited := insert url (visited st), events := events st @ ev\<rparr>
              in case r of
                   Inl e \<Rightarrow> (Some e, st1)
                 | Inr None \<Rightarrow> (None, st1)
                 | Inr (Some soup) \<Rightarrow>
                     (let text = soup_get_text L soup;
                          st2 = st1\<lparr>results := results st1 @ keyword_hits L url text keywords\<rparr>
                      in if depth < max_depth
                         then
                           (case enqueue_links L url depth (visited st2) (queue st2)
                                   (soup_find_all_a L soup) of
                              (Some e, qu) \<Rightarrow> (Some e, st2\<lparr>queue := qu\<rparr>)
                            | (None, qu) \<Rightarrow>
                                (None, st2\<lparr>queue := qu, pages_crawled := pages_crawled st2 + 1\<rparr>))
                         else (None, st2\<lparr>pages_crawled := pages_crawled st2 + 1\<rparr>)))))"

text \<open>
  An iteration that returns without an exception either counts a page or leaves the
  counter and the queue as they were after the entry was taken off.
\<close>

lemma crawl_body_progress:
  assumes "crawl_body L S keywords max_depth url depth st = (None, st')"
  shows "pages_crawled st' = pages_crawled st + 1
         \<or> (pages_crawled st' = pages_crawled st \<and> queue st' = queue st)"
  using assms
  by (auto simp: crawl_body_def Let_def split: if_splits prod.splits sum.splits option.splits)

text \<open>
  \<^verbatim>\<open>while not q.empty() and pages_crawled < max_pages\<close>. The loop ends: an iteration
  either counts a page, of which there are at most \<^verbatim>\<open>max_pages\<close>, or shortens the queue.
\<close>

function crawl_loop ::
  "('d, 'e, 'c) lib \<Rightarrow> scraper \<Rightarrow> 'c list list \<Rightarrow> int \<Rightarrow> int \<Rightarrow> 'c crawl_state \<Rightarrow>
     exn option \<times> 'c crawl_state" where
  "crawl_loop L S keywords max_depth max_pages st =
     (case queue st of
        [] \<Rightarrow> (None, st)
      | (url, depth) # rest \<Rightarrow>
          if pages_crawled st < max_pages
          then
            (case crawl_body L S keywords max_depth url depth (st\<lparr>queue := rest\<rparr>) of
               (Some e, st') \<Rightarrow> (Some e, st')
             | (None, st') \<Rightarrow> crawl_loop L S keywords max_depth max_pages st')
          else (None, st))"
  by pat_completeness auto
termination
proof (relation "inv_image (less_than <*lex*> less_than)
    (\<lambda>(L, S, keywords, max_depth, max_pages, st).
       (nat (max_pages - pages_crawled st), length (queue st)))", goal_cases)
  case 1
  show ?case by (intro wf_inv_image wf_lex_prod wf_less_than)
next
  case (2 L S kws max_depth max_pages st entry rest url depth r st')
  then have "crawl_body L S kws max_depth url depth (st\<lparr>queue := rest\<rparr>) = (None, st')"
    by simp
  from crawl_body_progress [OF this] 2 show ?case
    by auto
qed

text \<open>
  The state before the loop: nothing visited, no results, the start addresses queued at
  depth 0 in the order given, no page counted.
\<close>

definition start_state :: "string list \<Rightarrow> 'c crawl_state" where
  "start_state start_urls =
     \<lparr>visited = {}, results = [], queue = map (\<lambda>url. (url, 0)) start_urls,
      pages_crawled = 0, events = []\<rparr>"

definition search_keywords_across_web ::
  "('d, 'e, 'c) lib \<Rightarrow> scraper \<Rightarrow> 'c list list \<Rightarrow> string list \<Rightarrow> int \<Rightarrow> int \<Rightarrow>
     (exn + 'c keyword_hit list) \<times> event list" where
  "search_keywords_across_web L S keywords start_urls max_depth max_pages =
     (case crawl_loop L S keywords max_depth max_pages (start_state start_urls) of
        (Some e, st) \<Rightarrow> (Inl e, events st)
      | (None, st) \<Rightarrow> (Inr (results st), events st))"

text \<open>The addresses of the requests among the events, in order.\<close>

fun http_gets :: "event list \<Rightarrow> string list" where
  "http_gets [] = []"
| "http_gets (HttpGet u # ev) = u # http_gets ev"
| "http_gets (e # ev) = http_gets ev"

text \<open>
  The states in which the search stands at the head of its loop: the state before the loop,
  and the state after every iteration that returned without an exception.
\<close>

inductive reachable ::
  "('d, 'e, 'c) lib \<Rightarrow> scraper \<Rightarrow> 'c list list \<Rightarrow> int \<Rightarrow> int \<Rightarrow> string list \<Rightarrow>
     'c crawl_state \<Rightarrow> bool"
  for L S kws max_depth max_pages start_urls where
  start:
    "reachable L S kws max_depth max_pages start_urls (start_state start_urls)"
| iterate:
    "reachable L S kws max_depth max_pages start_urls st \<Longrightarrow>
     queue st = (url, depth) # rest \<Longrightarrow>
     pages_crawled st < max_pages \<Longrightarrow>
     crawl_body L S kws max_depth url depth (st\<lparr>queue := rest\<rparr>) = (None, st') \<Longrightarrow>
     reachable L S kws max_depth max_pages start_urls st'"

text \<open>The invariants of the loop that the proofs below use.\<close>

definition fetch_inv :: "'c crawl_state \<Rightarrow> bool" where
  "fetch_inv st = (distinct (http_gets (events st)) \<and> set (http_gets (events st)) \<subseteq> visited st)"

definition depth_inv :: "int \<Rightarrow> 'c crawl_state \<Rightarrow> bool" where
  "depth_inv max_depth st = (\<forall>(u, k) \<in> set (queue st). 0 \<le> k \<and> (k = 0 \<or> k \<le> max_depth))"

definition hits_inv ::
  "('d, 'e, 'c) lib \<Rightarrow> scraper \<Rightarrow> 'c list list \<Rightarrow> 'c crawl_state \<Rightarrow> bool" where
  "hits_inv L S kws st =
     ((\<forall>r \<in> set (results st).
         HttpGet (hit_url r) \<in> set (events st) \<and> hit_keyword r \<in> set kws \<and> 0 < hit_count r
         \<and> (\<exists>soup. fst (get_page L S (hit_url r)) = Inr (Some soup)
               \<and> hit_count r = str_count (str_lower L (soup_get_text L soup)) (str_lower L (hit_keyword r))))
      \<and> (\<forall>url soup kw.
            HttpGet url \<in> set (events st) \<and> fst (get_page L S url) = Inr (Some soup)
            \<and> kw \<in> set kws \<and> 0 < str_count (str_lower L (soup_get_text L soup)) (str_lower L kw)
            \<longrightarrow> \<lparr>hit_url = url, hit_keyword = kw,
                  hit_count = str_count (str_lower L (soup_get_text L soup)) (str_lower L kw),
                  hit_type = ''keyword_search''\<rparr> \<in> set (results st)))"

section \<open>A small web, for running the functions\<close>

text \<open>
  An instance of the libraries over a table of pages, used where a statement is evaluated at
  a concrete input. A tag has a name, attributes, classes, its stripped text and child
  tags; a document lists what each selector matches, its text and the \<open>href\<close>s of its
  anchors.
\<close>

datatype demo_tag =
  DemoTag (dt_name: string) (dt_attrs: "(string \<times> string) list") (dt_class: "string list")
    (dt_text: string) (dt_children: "demo_tag list")

record demo_soup =
  ds_select :: "(string \<times> demo_tag list) list"
  ds_text :: string
  ds_hrefs :: "string list"

text \<open>
  \<open>demo_urlparse\<close> splits off the scheme before the first colon and the host part after
  \<open>//\<close>, and raises as \<^verbatim>\<open>urlparse\<close> does on a host part with one bracket.
\<close>

definition demo_urlparse :: "string \<Rightarrow> exn + parsed_url" where
  "demo_urlparse url =
     (let sch = takeWhile (\<lambda>c. c \<noteq> CHR '':'') url;
          rest = drop (length sch + 1) url;
          loc = (if take 2 rest = ''//'' then takeWhile (\<lambda>c. c \<noteq> CHR ''/'') (drop 2 rest) else [])
      in if length sch = length url then Inr \<lparr>scheme = [], netloc = []\<rparr>
         else if (CHR ''['' \<in> set loc) \<noteq> (CHR '']'' \<in> set loc) then Inl (Exn ''Invalid IPv6 URL'')
         else Inr \<lparr>scheme = sch, netloc = loc\<rparr>)"

definition demo_urljoin :: "string \<Rightarrow> string \<Rightarrow> exn + string" where
  "demo_urljoin base href =
     (case demo_urlparse base of
        Inl e \<Rightarrow> Inl e
      | Inr b \<Rightarrow>
          (case demo_urlparse href of
             Inl e \<Rightarrow> Inl e
           | Inr h \<Rightarrow>
               if scheme h \<noteq> [] then Inr href
               else if take 1 href = ''/'' then Inr (scheme b @ ''://'' @ netloc b @ href)
               else Inr (scheme b @ ''://'' @ netloc b @ ''/'' @ href)))"

text \<open>\<open>demo_lower\<close> is \<^verbatim>\<open>str.lower\<close> on texts of ASCII characters.\<close>

definition lower_char :: "char \<Rightarrow> char" where
  "lower_char c = (let n = (of_char c :: nat) in if 65 \<le> n \<and> n \<le> 90 then char_of (n + 32) else c)"

definition demo_lower :: "string \<Rightarrow> string" where
  "demo_lower s = map lower_char s"

text \<open>
  \<open>demo_lib pages denied\<close>: the pages by address (any other address answers 404), and the
  addresses that the robots rules deny.
\<close>

definition demo_lib ::
  "(string \<times> demo_soup) list \<Rightarrow> string list \<Rightarrow> (demo_soup, demo_tag, char) lib" where
  "demo_lib pages denied =
     \<lparr>lib_urlparse = demo_urlparse,
      lib_urljoin = demo_urljoin,
      rp_can_fetch = (\<lambda>robots_url url. Inr (url \<notin> set denied)),
      session_get = (\<lambda>url. case map_of pages url of
                               None \<Rightarrow> Inl (Exn ''404 Client Error'')
                             | Some d \<Rightarrow> Inr d),
      time_sleep = (\<lambda>d. if d < 0 then Some (Exn ''sleep length must be non-negative'') else None),
      soup_select = (\<lambda>d selector. case map_of (ds_select d) selector of
                                     None \<Rightarrow> Inr []
                                   | Some es \<Rightarrow> Inr es),
      soup_get_text = ds_text,
      str_lower = demo_lower,
      soup_find_all_a = ds_hrefs,
      tag_find = (\<lambda>t names. List.find (\<lambda>c. dt_name c \<in> set names) (dt_children t)),
      tag_find_parent = (\<lambda>t name. None),
      tag_find_all_hash = (\<lambda>t. filter (\<lambda>c. dt_name c = ''a''
                                \<and> (case map_of (dt_attrs c) ''href'' of
                                       None \<Rightarrow> False
                                     | Some h \<Rightarrow> CHR ''#'' \<in> set h)) (dt_children t)),
      tag_get_text = (\<lambda>t strip. dt_text t),
      tag_get = (\<lambda>t key. map_of (dt_attrs t) key),
      tag_get_class = dt_class,
      tag_name = dt_name\<rparr>"

text \<open>
  What \<^verbatim>\<open>urllib.robotparser\<close> answers to \<^verbatim>\<open>set_url\<close>, \<^verbatim>\<open>read\<close> and \<^verbatim>\<open>can_fetch\<close>.
  \<^verbatim>\<open>read\<close> opens the address of the robots file. An HTTP error status is caught there:
  401 and 403 set \<^verbatim>\<open>disallow_all\<close>, any other status from 400 to 499 sets
  \<^verbatim>\<open>allow_all\<close>, and any other status sets nothing. Any other exception of the request,
  and of decoding the body, is raised. \<^verbatim>\<open>can_fetch\<close> then answers \<open>False\<close> under
  \<^verbatim>\<open>disallow_all\<close>, \<open>True\<close> under \<^verbatim>\<open>allow_all\<close>, \<open>False\<close> when nothing has been
  parsed, and what the parsed rules say otherwise.
\<close>

datatype read_outcome = HTTPError int | ReadRaises exn | Parsed

definition robot_file_parser ::
  "(string \<Rightarrow> read_outcome) \<Rightarrow> (string \<Rightarrow> string \<Rightarrow> exn + bool) \<Rightarrow> string \<Rightarrow> string \<Rightarrow> exn + bool" where
  "robot_file_parser reads rules robots_url url =
     (case reads robots_url of
        ReadRaises e \<Rightarrow> Inl e
      | HTTPError code \<Rightarrow>
          if code = 401 \<or> code = 403 then Inr False
          else if 400 \<le> code \<and> code < 500 then Inr True
          else Inr False
      | Parsed \<Rightarrow> rules robots_url url)"

text \<open>A web in which every robots file is answered with the given HTTP error status.\<close>

definition robots_error_lib :: "int \<Rightarrow> (demo_soup, demo_tag, char) lib" where
  "robots_error_lib code =
     (demo_lib [] [])\<lparr>rp_can_fetch :=
        robot_file_parser (\<lambda>robots_url. HTTPError code) (\<lambda>robots_url url. Inr True)\<rparr>"

definition demo_scraper :: scraper where
  "demo_scraper = \<lparr>delay = 1, respect_robots = True, max_items = 20\<rparr>"

text \<open>A document in which one selector matches the given tags.\<close>

definition demo_page :: "string \<Rightarrow> demo_tag list \<Rightarrow> demo_soup" where
  "demo_page selector tags = \<lparr>ds_select = [(selector, tags)], ds_text = [], ds_hrefs = []\<rparr>"

text \<open>A document with the given visible text and anchors, in which no selector matches.\<close>

definition demo_text_page :: "string \<Rightarrow> string list \<Rightarrow> demo_soup" where
  "demo_text_page text hrefs = \<lparr>ds_select = [], ds_text = text, ds_hrefs = hrefs\<rparr>"

text \<open>The pages used below.\<close>

definition news_item_tag :: demo_tag where
  "news_item_tag =
     DemoTag ''div'' [] [''news-item''] ''Title body''
       [DemoTag ''h2'' [] [] ''Title'' [], DemoTag ''a'' [(''href'', ''/a'')] [] ''more'' [],
        DemoTag ''p'' [] [] ''body'' []]"

definition broken_item_tag :: demo_tag where
  "broken_item_tag =
     DemoTag ''div'' [] [''news-item''] ''Other''
       [DemoTag ''h2'' [] [] ''Other'' [], DemoTag ''a'' [(''href'', ''http://['')] [] ''more'' []]"

definition third_selector_web :: "(string \<times> demo_soup) list" where
  "third_selector_web =
     [(''https://x.test'', demo_page ''.news-item'' [news_item_tag, broken_item_tag])]"

definition short_span_web :: "(string \<times> demo_soup) list" where
  "short_span_web = [(''https://x.test'', demo_page ''span'' [DemoTag ''span'' [] [] ''hi'' []])]"

definition long_title :: string where
  "long_title = replicate 501 (CHR ''x'')"

definition long_title_web :: "(string \<times> demo_soup) list" where
  "long_title_web =
     [(''https://x.test'',
       demo_page ''article''
         [DemoTag ''article'' [] [] long_title
            [DemoTag ''h2'' [] [] long_title [], DemoTag ''p'' [] [] long_title []]])]"

definition twenty_web :: "(string \<times> demo_soup) list" where
  "twenty_web =
     [(''https://x.test'',
       demo_page ''p''
         [DemoTag ''p'' [] [] ''12345678901234567890'' [],
          DemoTag ''p'' [] [''lead''] ''123456789012345678901'' []])]"

definition broken_link_web :: "(string \<times> demo_soup) list" where
  "broken_link_web =
     [(''https://x.test'',
       demo_page ''p''
         [DemoTag ''p'' [] [] ''12345678901234567890'' [],
          DemoTag ''p'' [] [''lead''] ''123456789012345678901'' [],
          DemoTag ''p'' [] [] ''a paragraph with a broken link''
            [DemoTag ''a'' [(''href'', ''http://['')] [] ''link'' []]])]"

definition cat_web :: "(string \<times> demo_soup) list" where
  "cat_web = [(''https://x.test'', demo_text_page ''cat dog cat'' [])]"

definition bad_link_web :: "(string \<times> demo_soup) list" where
  "bad_link_web = [(''https://x.test'', demo_text_page ''cat'' [''http://[''])]"

definition case_web :: "(string \<times> demo_soup) list" where
  "case_web = [(''https://x.test'', demo_text_page ''Category CAT'' [])]"

definition crawl_web :: "(string \<times> demo_soup) list" where
  "crawl_web =
     [(''https://x.test'', demo_text_page ''Cat dog cat'' [''/a'', ''/a'', ''https://x.test'']),
      (''https://x.test/a'', demo_text_page ''category'' [''/b''])]"

section \<open>The politeness check and the fetch\<close>

text \<open>
  \<open>can_fetch\<close> denies a fetch in one case only: robots rules are respected, the address
  parses, and the rules, read without an exception, deny it.
\<close>

lemma can_fetch_denies_iff:
  "(\<not> fst (can_fetch L S url)) =
     (respect_robots S \<and>
      (\<exists>p. lib_urlparse L url = Inr p
           \<and> rp_can_fetch L (scheme p @ ''://'' @ netloc p @ ''/robots.txt'') url = Inr False))"
  by (auto simp: can_fetch_def Let_def split: sum.splits)

lemma can_fetch_no_http_get: "HttpGet u \<notin> set (snd (can_fetch L S url))"
  by (auto simp: can_fetch_def Let_def split: sum.splits)

text \<open>
  With robots rules respected, whenever the check of the robots file raises (the address
  of the page does not parse, or reading the robots file or evaluating its rules raises),
  \<open>can_fetch\<close> returns \<open>True\<close> and logs a warning that carries the page address and
  the cause.
\<close>

lemma robots_failure_allows:
  assumes "respect_robots S"
    and "lib_urlparse L url = Inl e
         \<or> (\<exists>p. lib_urlparse L url = Inr p
                \<and> rp_can_fetch L (scheme p @ ''://'' @ netloc p @ ''/robots.txt'') url = Inl e)"
  shows "fst (can_fetch L S url)
         \<and> LogWarning (''Could not check robots.txt for '' @ url @ '': '' @ str_of_exn e)
             \<in> set (snd (can_fetch L S url))"
  using assms by (auto simp: can_fetch_def Let_def split: sum.splits)

text \<open>
  C7 fails where the retrieval of the robots file fails with an HTTP error status that
  \<^verbatim>\<open>RobotFileParser.read\<close> catches. On the status 503, and on 403, nothing is raised
  and the parser answers no: \<open>can_fetch\<close> returns \<open>False\<close> without a warning, and
  \<open>get_page\<close> reports that the robots file disallows the page and sends no request.
\<close>

theorem robots_http_error_denies:
  "can_fetch (robots_error_lib 503) demo_scraper ''https://x.test/a''
     = (False, [RobotsRead ''https://x.test/robots.txt''])
   \<and> get_page (robots_error_lib 503) demo_scraper ''https://x.test/a''
     = (Inr None, [RobotsRead ''https://x.test/robots.txt'',
                   LogWarning ''Robots.txt disallows fetching https://x.test/a''])
   \<and> can_fetch (robots_error_lib 403) demo_scraper ''https://x.test/a''
     = (False, [RobotsRead ''https://x.test/robots.txt''])"
  by (simp add: get_page_def can_fetch_def robots_error_lib_def robot_file_parser_def demo_lib_def
      demo_scraper_def demo_urlparse_def Let_def)

text \<open>
  C5, as the code has it. The scheme is checked by \<open>get_page\<close>, before it asks
  \<open>can_fetch\<close>: for an address that parses with a scheme other than \<open>http\<close> and \<open>https\<close>,
  \<open>get_page\<close> returns \<open>None\<close> and does nothing but log the error: no robots file is read
  and no request is sent.
\<close>

theorem unsafe_scheme_not_fetched:
  assumes "lib_urlparse L url = Inr p" and "scheme p \<noteq> ''http''" and "scheme p \<noteq> ''https''"
  shows "get_page L S url
         = (Inr None, [LogError (''Blocked potentially unsafe URL scheme: '' @ scheme p)])"
  using assms by (simp add: get_page_def)

text \<open>C5, as the code has it, at an \<open>ftp\<close> address.\<close>

theorem unsafe_scheme_not_fetched_witness:
  "get_page (demo_lib [] []) demo_scraper ''ftp://x.test/f''
     = (Inr None, [LogError ''Blocked potentially unsafe URL scheme: ftp''])"
  using unsafe_scheme_not_fetched [of "demo_lib [] []" "''ftp://x.test/f''"
      "\<lparr>scheme = ''ftp'', netloc = ''x.test''\<rparr>" demo_scraper]
  by (simp add: demo_lib_def demo_urlparse_def Let_def)

text \<open>
  C5 as stated fails: \<open>can_fetch\<close> does not look at the scheme. For an \<open>ftp\<close> address it
  returns \<open>True\<close> when robots rules are not respected, and when they are it reads the robots
  file of the \<open>ftp\<close> host and returns what the rules say.
\<close>

theorem can_fetch_ignores_scheme:
  "lib_urlparse (demo_lib [] []) ''ftp://x.test/f'' = Inr \<lparr>scheme = ''ftp'', netloc = ''x.test''\<rparr>
   \<and> can_fetch (demo_lib [] []) (demo_scraper\<lparr>respect_robots := False\<rparr>) ''ftp://x.test/f'' = (True, [])
   \<and> can_fetch (demo_lib [] []) demo_scraper ''ftp://x.test/f''
       = (True, [RobotsRead ''ftp://x.test/robots.txt''])"
  by (simp add: can_fetch_def demo_lib_def demo_scraper_def demo_urlparse_def Let_def)

text \<open>
  \<open>get_page\<close> raises exactly what \<^verbatim>\<open>urlparse(url)\<close>, its first statement and outside the
  \<^verbatim>\<open>try\<close>, raises. Whatever the request, the parse of the body or the pause raises is
  caught: the result is \<open>None\<close>.
\<close>

lemma get_page_Inl_iff:
  "(fst (get_page L S url) = Inl e) = (lib_urlparse L url = Inl e)"
  by (auto simp: get_page_def split: sum.splits prod.splits option.splits)

lemma get_page_fetch_failure:
  assumes "lib_urlparse L url = Inr p"
    and "session_get L url = Inl e
         \<or> (\<exists>soup. session_get L url = Inr soup \<and> time_sleep L (delay S) = Some e)"
  shows "fst (get_page L S url) = Inr None"
  using assms by (auto simp: get_page_def split: sum.splits prod.splits option.splits)

text \<open>
  When \<open>get_page\<close> returns \<open>None\<close>, each of the four scraping functions returns
  the empty list, with the events of the fetch and no others.
\<close>

lemma scrape_fetch_failure:
  assumes "get_page L S base_url = (Inr None, ev)"
  shows "scrape_news_articles L S base_url custom = (Inr [], ev)"
    and "scrape_product_listings L S base_url custom = (Inr [], ev)"
    and "scrape_social_media_posts L S base_url custom = (Inr [], ev)"
    and "scrape_generic_content L S base_url custom = (Inr [], ev)"
  using assms
  by (simp_all add: scrape_news_articles_def scrape_product_listings_def
      scrape_social_media_posts_def scrape_generic_content_def)

text \<open>
  C6 fails at an address that \<^verbatim>\<open>urlparse\<close> rejects: \<open>get_page\<close> raises the
  \<^verbatim>\<open>ValueError\<close>, and so does the extraction that called it.
\<close>

theorem get_page_raises:
  "get_page (demo_lib [] []) demo_scraper ''http://['' = (Inl (Exn ''Invalid IPv6 URL''), [])
   \<and> fst (scrape_news_articles (demo_lib [] []) demo_scraper ''http://['' None)
       = Inl (Exn ''Invalid IPv6 URL'')"
  by (simp add: scrape_news_articles_def get_page_def demo_lib_def demo_urlparse_def Let_def)

section \<open>The extraction\<close>

subsection \<open>Slices and the two loops\<close>

lemma length_slice_to: "0 \<le> n \<Longrightarrow> length (slice_to n xs) \<le> nat n"
  by (simp add: slice_to_def)

lemma set_slice_to: "set (slice_to n xs) \<subseteq> set xs"
  by (auto simp: slice_to_def dest: in_set_takeD)

lemma slice_to_nonempty: "1 \<le> n \<Longrightarrow> xs \<noteq> [] \<Longrightarrow> slice_to n xs \<noteq> []"
  by (cases xs) (auto simp: slice_to_def take_Cons split: nat.splits)

text \<open>
  The records of the loop over the elements are those that the body returns: an element on
  which the body raises, or appends nothing, gives none.
\<close>

lemma for_each_element_set:
  "(r \<in> set (fst (for_each_element body msg xs))) = (\<exists>e \<in> set xs. body e = Inr (Some r))"
  by (induction xs) (auto split: prod.splits sum.splits option.splits)

lemma for_each_element_empty:
  "(fst (for_each_element body msg xs) = []) = (\<forall>e \<in> set xs. \<forall>r. body e \<noteq> Inr (Some r))"
  by (induction xs) (auto split: prod.splits sum.splits option.splits)

lemma for_each_element_nonempty:
  "(fst (for_each_element body msg xs) \<noteq> []) = (\<exists>e \<in> set xs. \<exists>r. body e = Inr (Some r))"
  using for_each_element_empty [of body msg xs] by auto

lemma for_each_element_from_body:
  assumes "for_each_element body msg xs = (rs, ev)" and "r \<in> set rs"
  shows "\<exists>e \<in> set xs. body e = Inr (Some r)"
  using assms for_each_element_set [of r body msg xs] by simp

lemma fst_for_each_element_Cons:
  "fst (for_each_element body msg (x # xs)) =
     (case body x of Inr (Some r) \<Rightarrow> r # fst (for_each_element body msg xs)
      | _ \<Rightarrow> fst (for_each_element body msg xs))"
  by (auto split: prod.splits sum.splits option.splits)

text \<open>
  The selector loop returns the matches of the first selector that has any, whatever the
  selectors behind it would match: they are not evaluated.
\<close>

lemma first_match_commits:
  assumes "\<forall>t \<in> set pre. sel t = Inr []" and "sel s = Inr es" and "es \<noteq> []"
  shows "first_match sel (pre @ s # post) = Inr es"
  using assms by (induction pre) auto

lemma first_match_Inr:
  assumes "first_match sel ss = Inr es"
  shows "(es = [] \<and> (\<forall>t \<in> set ss. sel t = Inr []))
         \<or> (es \<noteq> [] \<and> (\<exists>pre s post. ss = pre @ s # post \<and> (\<forall>t \<in> set pre. sel t = Inr []) \<and> sel s = Inr es))"
  using assms
proof (induction ss)
  case Nil
  then show ?case by simp
next
  case (Cons a ss)
  show ?case
  proof (cases "sel a")
    case (Inl x)
    with Cons.prems show ?thesis by simp
  next
    case (Inr found)
    show ?thesis
    proof (cases "found = []")
      case True
      with Inr Cons.prems have "first_match sel ss = Inr es" by simp
      from Cons.IH [OF this] show ?thesis
      proof
        assume "es = [] \<and> (\<forall>t\<in>set ss. sel t = Inr [])"
        with Inr True show ?thesis by simp
      next
        assume "es \<noteq> [] \<and> (\<exists>pre s post. ss = pre @ s # post \<and> (\<forall>t\<in>set pre. sel t = Inr []) \<and> sel s = Inr es)"
        then obtain pre s post where "es \<noteq> []" "ss = pre @ s # post" "\<forall>t\<in>set pre. sel t = Inr []" "sel s = Inr es"
          by blast
        with Inr True have "a # ss = (a # pre) @ s # post \<and> (\<forall>t\<in>set (a # pre). sel t = Inr []) \<and> sel s = Inr es"
          by simp
        with \<open>es \<noteq> []\<close> show ?thesis by blast
      qed
    next
      case False
      with Inr Cons.prems have "es = found" by simp
      with Inr False have "a # ss = [] @ a # ss \<and> (\<forall>t\<in>set []. sel t = Inr []) \<and> sel a = Inr es" by simp
      with False \<open>es = found\<close> show ?thesis by blast
    qed
  qed
qed

subsection \<open>The bodies\<close>

text \<open>
  The bodies for news and products return a record unless \<^verbatim>\<open>urljoin\<close> raises; the body
  for social posts always returns one; the body for generic content returns none for a text
  of at most 20 characters.
\<close>

lemma news_body_cases:
  "(\<exists>x. news_body L b e = Inl x) \<or> (\<exists>r. news_body L b e = Inr (Some r))"
  by (auto simp: news_body_def Let_def split: sum.splits)

lemma product_body_cases:
  "(\<exists>x. product_body L b e = Inl x) \<or> (\<exists>r. product_body L b e = Inr (Some r))"
  by (auto simp: product_body_def Let_def split: sum.splits)

lemma social_body_Some: "\<exists>r. social_body L b e = Inr (Some r)"
  by (simp add: social_body_def Let_def)

lemma generic_body_short:
  "length (tag_get_text L e True) \<le> 20 \<Longrightarrow> generic_body L b e = Inr None"
  by (simp add: generic_body_def Let_def)

lemma generic_body_long:
  assumes "20 < length (tag_get_text L e True)"
  shows "(\<exists>x. generic_body L b e = Inl x)
         \<or> (\<exists>g. generic_body L b e = Inr (Some g) \<and> generic_text g = slice_to 500 (tag_get_text L e True))"
  using assms by (auto simp: generic_body_def Let_def split: sum.splits)

lemma generic_body_Some_iff:
  "(\<exists>g. generic_body L b e = Inr (Some g)) = (20 < length (tag_get_text L e True) \<and> \<not> isl (generic_body L b e))"
  using generic_body_short [of L e b] generic_body_long [of L e b]
  by (cases "20 < length (tag_get_text L e True)") auto

lemma news_body_Some_iff: "(\<exists>r. news_body L b e = Inr (Some r)) = (\<not> isl (news_body L b e))"
  using news_body_cases [of L b e] by auto

lemma product_body_Some_iff: "(\<exists>r. product_body L b e = Inr (Some r)) = (\<not> isl (product_body L b e))"
  using product_body_cases [of L b e] by auto

lemma generic_texts:
  "map generic_text (fst (for_each_element (generic_body L b) msg xs))
   = map (\<lambda>e. slice_to 500 (tag_get_text L e True))
       (filter (\<lambda>e. 20 < length (tag_get_text L e True) \<and> \<not> isl (generic_body L b e)) xs)"
proof (induction xs)
  case Nil
  show ?case by simp
next
  case (Cons x xs)
  show ?case
  proof (cases "20 < length (tag_get_text L x True)")
    case False
    then have "generic_body L b x = Inr None"
      by (simp add: generic_body_short)
    with False Cons.IH show ?thesis
      by (simp add: fst_for_each_element_Cons del: for_each_element.simps)
  next
    case True
    from generic_body_long [OF True, of b] show ?thesis
    proof
      assume "\<exists>e. generic_body L b x = Inl e"
      with True Cons.IH show ?thesis
        by (auto simp: fst_for_each_element_Cons simp del: for_each_element.simps)
    next
      assume "\<exists>g. generic_body L b x = Inr (Some g) \<and> generic_text g = slice_to 500 (tag_get_text L x True)"
      with True Cons.IH show ?thesis
        by (auto simp: fst_for_each_element_Cons simp del: for_each_element.simps)
    qed
  qed
qed

subsection \<open>The four scraping functions\<close>

lemma scrape_news_articles_match:
  assumes "get_page L S base_url = (Inr (Some soup), ev)"
    and "first_match (soup_select L soup) (selectors_or custom news_selectors) = Inr es"
  shows "fst (scrape_news_articles L S base_url custom)
         = Inr (fst (for_each_element (news_body L base_url) ''Error parsing article: ''
                       (slice_to (max_items S) es)))"
  using assms by (simp add: scrape_news_articles_def split: prod.splits)

lemma scrape_product_listings_match:
  assumes "get_page L S base_url = (Inr (Some soup), ev)"
    and "first_match (soup_select L soup) (selectors_or custom product_selectors) = Inr es"
  shows "fst (scrape_product_listings L S base_url custom)
         = Inr (fst (for_each_element (product_body L base_url) ''Error parsing product: ''
                       (slice_to (max_items S) es)))"
  using assms by (simp add: scrape_product_listings_def split: prod.splits)

lemma scrape_social_media_posts_match:
  assumes "get_page L S base_url = (Inr (Some soup), ev)"
    and "first_match (soup_select L soup) (selectors_or custom social_selectors) = Inr es"
  shows "fst (scrape_social_media_posts L S base_url custom)
         = Inr (fst (for_each_element (social_body L base_url) ''Error parsing post: ''
                       (slice_to (max_items S) es)))"
  using assms by (simp add: scrape_social_media_posts_def split: prod.splits)

lemma scrape_generic_content_match:
  assumes "get_page L S base_url = (Inr (Some soup), ev)"
    and "first_match (soup_select L soup) (selectors_or custom generic_selectors) = Inr es"
  shows "fst (scrape_generic_content L S base_url custom)
         = Inr (fst (for_each_element (generic_body L base_url) ''Error parsing content: ''
                       (slice_to (max_items S) es)))"
  using assms by (simp add: scrape_generic_content_def Let_def split: prod.splits)

lemma scrape_news_articles_from_body:
  assumes "fst (scrape_news_articles L S base_url custom) = Inr arts" and "a \<in> set arts"
  shows "\<exists>e. news_body L base_url e = Inr (Some a)"
  using assms
  by (auto simp: scrape_news_articles_def split: prod.splits sum.splits option.splits
      dest!: for_each_element_from_body)

lemma scrape_product_listings_from_body:
  assumes "fst (scrape_product_listings L S base_url custom) = Inr ps" and "p \<in> set ps"
  shows "\<exists>e. product_body L base_url e = Inr (Some p)"
  using assms
  by (auto simp: scrape_product_listings_def split: prod.splits sum.splits option.splits
      dest!: for_each_element_from_body)

lemma scrape_social_media_posts_from_body:
  assumes "fst (scrape_social_media_posts L S base_url custom) = Inr ps" and "p \<in> set ps"
  shows "\<exists>e. social_body L base_url e = Inr (Some p)"
  using assms
  by (auto simp: scrape_social_media_posts_def split: prod.splits sum.splits option.splits
      dest!: for_each_element_from_body)

lemma scrape_generic_content_from_body:
  assumes "fst (scrape_generic_content L S base_url custom) = Inr gs" and "g \<in> set gs"
  shows "\<exists>e. generic_body L base_url e = Inr (Some g)"
  using assms
  by (auto simp: scrape_generic_content_def Let_def split: prod.splits sum.splits option.splits
      dest!: for_each_element_from_body)

subsection \<open>Which elements give a record\<close>

text \<open>
  A body raises exactly the exception that \<^verbatim>\<open>urljoin\<close> raises on a link of the element,
  and returns a record otherwise (the generic body only for a text of more than 20
  characters).
\<close>

lemma slice_to_take: "slice_to (numeral n) xs = take (numeral n) xs"
  by (simp add: slice_to_def)

lemma joined_attr_Inl: "(joined_attr L b x key = Inl e) = (link_error L b x key = Some e)"
  by (auto simp: joined_attr_def link_error_def split: option.splits sum.splits)

lemma joined_attr_Inr: "(\<exists>u. joined_attr L b x key = Inr u) = (link_error L b x key = None)"
  by (auto simp: joined_attr_def link_error_def split: option.splits sum.splits)

lemma news_body_Inl:
  "(news_body L b e = Inl x) = (link_error L b (tag_find L e [''a'']) ''href'' = Some x)"
  by (auto simp: news_body_def Let_def joined_attr_Inl [symmetric] split: sum.splits)

lemma news_body_Some:
  "(\<exists>r. news_body L b e = Inr (Some r)) = (link_error L b (tag_find L e [''a'']) ''href'' = None)"
  using joined_attr_Inr [of L b "tag_find L e [''a'']" "''href''"]
  by (auto simp: news_body_def Let_def split: sum.splits)

lemma product_body_Some:
  "(\<exists>r. product_body L b e = Inr (Some r))
   = (link_error L b (tag_find L e [''a'']) ''href'' = None
      \<and> link_error L b (tag_find L e [''img'']) ''src'' = None)"
  using joined_attr_Inr [of L b "tag_find L e [''a'']" "''href''"]
    joined_attr_Inr [of L b "tag_find L e [''img'']" "''src''"]
  by (auto simp: product_body_def Let_def split: sum.splits)

lemma generic_body_Inl:
  "(generic_body L b e = Inl x)
   = (20 < length (tag_get_text L e True) \<and> link_error L b (link_element L e) ''href'' = Some x)"
  by (auto simp: generic_body_def link_element_def Let_def joined_attr_Inl [symmetric]
      split: sum.splits)

lemma generic_body_Some:
  "(\<exists>g. generic_body L b e = Inr (Some g))
   = (20 < length (tag_get_text L e True) \<and> link_error L b (link_element L e) ''href'' = None)"
  using joined_attr_Inr [of L b "link_element L e" "''href''"]
  by (auto simp: generic_body_def link_element_def Let_def split: sum.splits)

lemma for_each_element_length:
  "length (fst (for_each_element body msg xs))
   = length (filter (\<lambda>e. \<exists>r. body e = Inr (Some r)) xs)"
  by (induction xs) (auto split: prod.splits sum.splits option.splits)

lemma for_each_element_events:
  "snd (for_each_element body msg xs)
   = map (\<lambda>e. LogError (msg @ str_of_exn (projl (body e)))) (filter (\<lambda>e. isl (body e)) xs)"
  by (induction xs) (auto split: prod.splits sum.splits option.splits)

lemma generic_errors:
  "map (\<lambda>e. LogError (msg @ str_of_exn (projl (generic_body L b e))))
     (filter (\<lambda>e. isl (generic_body L b e)) xs)
   = map (\<lambda>e. LogError (msg @ str_of_exn (the (link_error L b (link_element L e) ''href''))))
       (filter (\<lambda>e. 20 < length (tag_get_text L e True)
                    \<and> link_error L b (link_element L e) ''href'' \<noteq> None) xs)"
proof (induction xs)
  case Nil
  show ?case by simp
next
  case (Cons x xs)
  show ?case
  proof (cases "generic_body L b x")
    case (Inl err)
    then have "20 < length (tag_get_text L x True)"
      and "link_error L b (link_element L x) ''href'' = Some err"
      by (simp_all add: generic_body_Inl)
    with Inl Cons.IH show ?thesis by simp
  next
    case (Inr r)
    then have "\<not> (20 < length (tag_get_text L x True)
        \<and> link_error L b (link_element L x) ''href'' \<noteq> None)"
      using generic_body_Inl [of L b x] by (cases "link_error L b (link_element L x) ''href''") auto
    with Inr Cons.IH show ?thesis by auto
  qed
qed

lemma generic_kept:
  "(20 < length (tag_get_text L e True) \<and> \<not> isl (generic_body L b e))
   = (20 < length (tag_get_text L e True) \<and> link_error L b (link_element L e) ''href'' = None)"
  using generic_body_Some_iff [of L b e] generic_body_Some [of L b e] by blast

lemma length_filter_cong:
  assumes "\<And>x. x \<in> set xs \<Longrightarrow> P x = Q x"
  shows "length (filter P xs) = length (filter Q xs)"
  using assms by (induction xs) auto

lemma filter_nonempty: "(filter P xs \<noteq> []) = (\<exists>x \<in> set xs. P x)"
  by (induction xs) auto

lemma length_nonempty: "length xs = length ys \<Longrightarrow> (xs \<noteq> []) = (ys \<noteq> [])"
  by auto

lemma in_set_slice_to: "e \<in> set (slice_to n xs) \<Longrightarrow> e \<in> set xs"
  using set_slice_to [of n xs] by blast

lemma scrape_news_articles_origin:
  assumes "fst (scrape_news_articles L S base_url custom) = Inr arts" and "a \<in> set arts"
  shows "\<exists>soup es e. fst (get_page L S base_url) = Inr (Some soup)
           \<and> first_match (soup_select L soup) (selectors_or custom news_selectors) = Inr es
           \<and> e \<in> set es \<and> news_body L base_url e = Inr (Some a)"
  using assms
  by (auto simp: scrape_news_articles_def split: prod.splits sum.splits option.splits
      dest!: for_each_element_from_body dest: in_set_slice_to)

lemma scrape_product_listings_origin:
  assumes "fst (scrape_product_listings L S base_url custom) = Inr ps" and "p \<in> set ps"
  shows "\<exists>soup es e. fst (get_page L S base_url) = Inr (Some soup)
           \<and> first_match (soup_select L soup) (selectors_or custom product_selectors) = Inr es
           \<and> e \<in> set es \<and> product_body L base_url e = Inr (Some p)"
  using assms
  by (auto simp: scrape_product_listings_def split: prod.splits sum.splits option.splits
      dest!: for_each_element_from_body dest: in_set_slice_to)

lemma scrape_social_media_posts_origin:
  assumes "fst (scrape_social_media_posts L S base_url custom) = Inr ps" and "p \<in> set ps"
  shows "\<exists>soup es e. fst (get_page L S base_url) = Inr (Some soup)
           \<and> first_match (soup_select L soup) (selectors_or custom social_selectors) = Inr es
           \<and> e \<in> set es \<and> social_body L base_url e = Inr (Some p)"
  using assms
  by (auto simp: scrape_social_media_posts_def split: prod.splits sum.splits option.splits
      dest!: for_each_element_from_body dest: in_set_slice_to)

lemma scrape_generic_content_origin:
  assumes "fst (scrape_generic_content L S base_url custom) = Inr gs" and "g \<in> set gs"
  shows "\<exists>soup es e. fst (get_page L S base_url) = Inr (Some soup)
           \<and> first_match (soup_select L soup) (selectors_or custom generic_selectors) = Inr es
           \<and> e \<in> set es \<and> generic_body L base_url e = Inr (Some g)"
  using assms
  by (auto simp: scrape_generic_content_def Let_def split: prod.splits sum.splits option.splits
      dest!: for_each_element_from_body dest: in_set_slice_to)

lemma news_body_fields:
  assumes "news_body L b e = Inr (Some a)"
  shows "news_title a = (case tag_find L e [''h1'', ''h2'', ''h3'', ''h4'', ''.title'', ''.headline''] of
                           None \<Rightarrow> ''No title'' | Some t \<Rightarrow> tag_get_text L t True)"
    and "news_summary a = (case tag_find L e [''p'', ''.summary'', ''.excerpt'', ''.description''] of
                             None \<Rightarrow> [] | Some t \<Rightarrow> take 200 (tag_get_text L t True))"
  using assms
  by (auto simp: news_body_def text_or_def slice_to_take Let_def split: sum.splits option.splits)

lemma product_body_fields:
  assumes "product_body L b e = Inr (Some p)"
  shows "product_name p = (case tag_find L e [''h1'', ''h2'', ''h3'', ''.product-name'', ''.title'', ''.name''] of
                             None \<Rightarrow> ''No name'' | Some t \<Rightarrow> tag_get_text L t True)"
  using assms
  by (auto simp: product_body_def text_or_def Let_def split: sum.splits option.splits)

lemma social_body_fields:
  assumes "social_body L b e = Inr (Some p)"
  shows "post_content p = take 300 (case tag_find L e [''.content'', ''.text'', ''p'', ''.message-body''] of
                                      None \<Rightarrow> [] | Some t \<Rightarrow> tag_get_text L t True)"
  using assms
  by (auto simp: social_body_def text_or_def slice_to_take Let_def split: option.splits)

lemma generic_body_fields:
  assumes "generic_body L b e = Inr (Some g)"
  shows "generic_text g = take 500 (tag_get_text L e True)"
  using assms
  by (auto simp: generic_body_def slice_to_take Let_def split: sum.splits if_splits)

text \<open>The fetches of the pages used below.\<close>

lemma third_selector_web_page:
  "get_page (demo_lib third_selector_web []) demo_scraper ''https://x.test''
   = (Inr (Some (demo_page ''.news-item'' [news_item_tag, broken_item_tag])),
      [RobotsRead ''https://x.test/robots.txt'', HttpGet ''https://x.test'', Sleep 1])"
  by (simp add: get_page_def can_fetch_def demo_lib_def demo_scraper_def demo_urlparse_def
      third_selector_web_def Let_def)

lemma broken_link_web_page:
  "get_page (demo_lib broken_link_web []) demo_scraper ''https://x.test''
   = (Inr (Some (demo_page ''p''
         [DemoTag ''p'' [] [] ''12345678901234567890'' [],
          DemoTag ''p'' [] [''lead''] ''123456789012345678901'' [],
          DemoTag ''p'' [] [] ''a paragraph with a broken link''
            [DemoTag ''a'' [(''href'', ''http://['')] [] ''link'' []]])),
      [RobotsRead ''https://x.test/robots.txt'', HttpGet ''https://x.test'', Sleep 1])"
  by code_simp

lemma short_span_web_page:
  "get_page (demo_lib short_span_web []) demo_scraper ''https://x.test''
   = (Inr (Some (demo_page ''span'' [DemoTag ''span'' [] [] ''hi'' []])),
      [RobotsRead ''https://x.test/robots.txt'', HttpGet ''https://x.test'', Sleep 1])"
  by (simp add: get_page_def can_fetch_def demo_lib_def demo_scraper_def demo_urlparse_def
      short_span_web_def Let_def)

lemma twenty_web_page:
  "get_page (demo_lib twenty_web []) demo_scraper ''https://x.test''
   = (Inr (Some (demo_page ''p''
         [DemoTag ''p'' [] [] ''12345678901234567890'' [],
          DemoTag ''p'' [] [''lead''] ''123456789012345678901'' []])),
      [RobotsRead ''https://x.test/robots.txt'', HttpGet ''https://x.test'', Sleep 1])"
  by (simp add: get_page_def can_fetch_def demo_lib_def demo_scraper_def demo_urlparse_def
      twenty_web_def Let_def)

text \<open>
  C1, as the code has it. On a fetched document in which the selectors before \<open>s\<close> in
  the list match nothing and \<open>s\<close> matches the elements \<open>es\<close>, each of the four
  profiles returns records of \<open>es\<close> only, and of its first \<^verbatim>\<open>max_items\<close> elements only:
  the selectors behind \<open>s\<close> play no part. There are as many records as there are, among
  those elements, elements that give one: for social posts every element; for news every
  element on whose link \<^verbatim>\<open>urljoin\<close> does not raise; for products every element on whose
  link and image address it does not raise; for generic content every element with a text
  of more than 20 characters on whose link it does not raise. The result is not empty
  exactly when there is such an element. With \<^verbatim>\<open>max_items\<close> at least 1 there is a first
  element to look at.
\<close>

theorem selector_fallback:
  assumes page: "get_page L S base_url = (Inr (Some soup), ev)"
    and earlier: "\<forall>t \<in> set pre. soup_select L soup t = Inr []"
    and hit: "soup_select L soup s = Inr es"
    and nonempty: "es \<noteq> []"
  shows
    "(selectors_or custom news_selectors = pre @ s # post \<longrightarrow>
        (\<exists>arts. fst (scrape_news_articles L S base_url custom) = Inr arts
           \<and> (\<forall>a \<in> set arts. \<exists>e \<in> set (slice_to (max_items S) es). news_body L base_url e = Inr (Some a))
           \<and> length arts
               = length (filter (\<lambda>e. link_error L base_url (tag_find L e [''a'']) ''href'' = None)
                           (slice_to (max_items S) es))
           \<and> (arts \<noteq> [] \<longleftrightarrow>
                (\<exists>e \<in> set (slice_to (max_items S) es).
                    link_error L base_url (tag_find L e [''a'']) ''href'' = None))))
   \<and> (selectors_or custom product_selectors = pre @ s # post \<longrightarrow>
        (\<exists>ps. fst (scrape_product_listings L S base_url custom) = Inr ps
           \<and> (\<forall>p \<in> set ps. \<exists>e \<in> set (slice_to (max_items S) es). product_body L base_url e = Inr (Some p))
           \<and> length ps
               = length (filter (\<lambda>e. link_error L base_url (tag_find L e [''a'']) ''href'' = None
                                    \<and> link_error L base_url (tag_find L e [''img'']) ''src'' = None)
                           (slice_to (max_items S) es))
           \<and> (ps \<noteq> [] \<longleftrightarrow>
                (\<exists>e \<in> set (slice_to (max_items S) es).
                    link_error L base_url (tag_find L e [''a'']) ''href'' = None
                    \<and> link_error L base_url (tag_find L e [''img'']) ''src'' = None))))
   \<and> (selectors_or custom social_selectors = pre @ s # post \<longrightarrow>
        (\<exists>ps. fst (scrape_social_media_posts L S base_url custom) = Inr ps
           \<and> (\<forall>p \<in> set ps. \<exists>e \<in> set (slice_to (max_items S) es). social_body L base_url e = Inr (Some p))
           \<and> length ps = length (slice_to (max_items S) es)
           \<and> (ps \<noteq> [] \<longleftrightarrow> slice_to (max_items S) es \<noteq> [])))
   \<and> (selectors_or custom generic_selectors = pre @ s # post \<longrightarrow>
        (\<exists>gs. fst (scrape_generic_content L S base_url custom) = Inr gs
           \<and> (\<forall>g \<in> set gs. \<exists>e \<in> set (slice_to (max_items S) es). generic_body L base_url e = Inr (Some g))
           \<and> length gs
               = length (filter (\<lambda>e. 20 < length (tag_get_text L e True)
                                    \<and> link_error L base_url (link_element L e) ''href'' = None)
                           (slice_to (max_items S) es))
           \<and> (gs \<noteq> [] \<longleftrightarrow>
                (\<exists>e \<in> set (slice_to (max_items S) es).
                    20 < length (tag_get_text L e True)
                    \<and> link_error L base_url (link_element L e) ''href'' = None))))
   \<and> (1 \<le> max_items S \<longrightarrow> slice_to (max_items S) es \<noteq> [])"
proof -
  let ?xs = "slice_to (max_items S) es"
  have m: "first_match (soup_select L soup) (pre @ s # post) = Inr es"
    using earlier hit nonempty by (rule first_match_commits)
  have news: "fst (scrape_news_articles L S base_url custom)
        = Inr (fst (for_each_element (news_body L base_url) ''Error parsing article: '' ?xs))"
    if "selectors_or custom news_selectors = pre @ s # post"
    using page m that by (simp add: scrape_news_articles_match)
  have product: "fst (scrape_product_listings L S base_url custom)
        = Inr (fst (for_each_element (product_body L base_url) ''Error parsing product: '' ?xs))"
    if "selectors_or custom product_selectors = pre @ s # post"
    using page m that by (simp add: scrape_product_listings_match)
  have social: "fst (scrape_social_media_posts L S base_url custom)
        = Inr (fst (for_each_element (social_body L base_url) ''Error parsing post: '' ?xs))"
    if "selectors_or custom social_selectors = pre @ s # post"
    using page m that by (simp add: scrape_social_media_posts_match)
  have generic: "fst (scrape_generic_content L S base_url custom)
        = Inr (fst (for_each_element (generic_body L base_url) ''Error parsing content: '' ?xs))"
    if "selectors_or custom generic_selectors = pre @ s # post"
    using page m that by (simp add: scrape_generic_content_match)
  have news_len: "length (fst (for_each_element (news_body L base_url) msg ?xs))
      = length (filter (\<lambda>e. link_error L base_url (tag_find L e [''a'']) ''href'' = None) ?xs)" for msg
    unfolding for_each_element_length by (rule length_filter_cong) (rule news_body_Some)
  have product_len: "length (fst (for_each_element (product_body L base_url) msg ?xs))
      = length (filter (\<lambda>e. link_error L base_url (tag_find L e [''a'']) ''href'' = None
                          \<and> link_error L base_url (tag_find L e [''img'']) ''src'' = None) ?xs)" for msg
    unfolding for_each_element_length by (rule length_filter_cong) (rule product_body_Some)
  have social_len: "length (fst (for_each_element (social_body L base_url) msg ?xs)) = length ?xs" for msg
    unfolding for_each_element_length using social_body_Some [of L base_url] by simp
  have generic_len: "length (fst (for_each_element (generic_body L base_url) msg ?xs))
      = length (filter (\<lambda>e. 20 < length (tag_get_text L e True)
                          \<and> link_error L base_url (link_element L e) ''href'' = None) ?xs)" for msg
    unfolding for_each_element_length by (rule length_filter_cong) (rule generic_body_Some)
  show ?thesis
  proof (intro conjI impI)
    assume "selectors_or custom news_selectors = pre @ s # post"
    from news [OF this] news_len [of "''Error parsing article: ''"]
      length_nonempty [OF news_len [of "''Error parsing article: ''"]]
    show "\<exists>arts. fst (scrape_news_articles L S base_url custom) = Inr arts
           \<and> (\<forall>a \<in> set arts. \<exists>e \<in> set ?xs. news_body L base_url e = Inr (Some a))
           \<and> length arts
               = length (filter (\<lambda>e. link_error L base_url (tag_find L e [''a'']) ''href'' = None) ?xs)
           \<and> (arts \<noteq> [] \<longleftrightarrow>
                (\<exists>e \<in> set ?xs. link_error L base_url (tag_find L e [''a'']) ''href'' = None))"
      by (simp add: for_each_element_set filter_nonempty)
  next
    assume "selectors_or custom product_selectors = pre @ s # post"
    from product [OF this] product_len [of "''Error parsing product: ''"]
      length_nonempty [OF product_len [of "''Error parsing product: ''"]]
    show "\<exists>ps. fst (scrape_product_listings L S base_url custom) = Inr ps
           \<and> (\<forall>p \<in> set ps. \<exists>e \<in> set ?xs. product_body L base_url e = Inr (Some p))
           \<and> length ps
               = length (filter (\<lambda>e. link_error L base_url (tag_find L e [''a'']) ''href'' = None
                                    \<and> link_error L base_url (tag_find L e [''img'']) ''src'' = None) ?xs)
           \<and> (ps \<noteq> [] \<longleftrightarrow>
                (\<exists>e \<in> set ?xs.
                    link_error L base_url (tag_find L e [''a'']) ''href'' = None
                    \<and> link_error L base_url (tag_find L e [''img'']) ''src'' = None))"
      by (simp add: for_each_element_set filter_nonempty)
  next
    assume "selectors_or custom social_selectors = pre @ s # post"
    from social [OF this] social_len [of "''Error parsing post: ''"]
      length_nonempty [OF social_len [of "''Error parsing post: ''"]]
    show "\<exists>ps. fst (scrape_social_media_posts L S base_url custom) = Inr ps
           \<and> (\<forall>p \<in> set ps. \<exists>e \<in> set ?xs. social_body L base_url e = Inr (Some p))
           \<and> length ps = length ?xs
           \<and> (ps \<noteq> [] \<longleftrightarrow> ?xs \<noteq> [])"
      by (simp add: for_each_element_set)
  next
    assume "selectors_or custom generic_selectors = pre @ s # post"
    from generic [OF this] generic_len [of "''Error parsing content: ''"]
      length_nonempty [OF generic_len [of "''Error parsing content: ''"]]
    show "\<exists>gs. fst (scrape_generic_content L S base_url custom) = Inr gs
           \<and> (\<forall>g \<in> set gs. \<exists>e \<in> set ?xs. generic_body L base_url e = Inr (Some g))
           \<and> length gs
               = length (filter (\<lambda>e. 20 < length (tag_get_text L e True)
                                    \<and> link_error L base_url (link_element L e) ''href'' = None) ?xs)
           \<and> (gs \<noteq> [] \<longleftrightarrow>
                (\<exists>e \<in> set ?xs.
                    20 < length (tag_get_text L e True)
                    \<and> link_error L base_url (link_element L e) ''href'' = None))"
      by (simp add: for_each_element_set filter_nonempty)
  next
    assume "1 \<le> max_items S"
    then show "?xs \<noteq> []"
      using nonempty by (rule slice_to_nonempty)
  qed
qed

text \<open>
  C1, as the code has it, at a document that only the third news selector, \<open>.news-item\<close>,
  matches, in two elements: the link of the second makes \<^verbatim>\<open>urljoin\<close> raise, and the one
  article comes from the first.
\<close>

theorem selector_fallback_witness:
  "fst (scrape_news_articles (demo_lib third_selector_web []) demo_scraper ''https://x.test'' None)
   = Inr [\<lparr>news_title = ''Title'', news_link = ''https://x.test/a'', news_summary = ''body'',
           news_date = [], news_author = [], news_source = ''https://x.test'',
           news_type = ''news''\<rparr>]
   \<and> (\<exists>arts. fst (scrape_news_articles (demo_lib third_selector_web []) demo_scraper
                    ''https://x.test'' None) = Inr arts
          \<and> length arts = 1)"
proof -
  let ?L = "demo_lib third_selector_web []"
  let ?d = "demo_page ''.news-item'' [news_item_tag, broken_item_tag]"
  let ?es = "[news_item_tag, broken_item_tag]"
  have earlier: "\<forall>t \<in> set [''article'', ''.article'']. soup_select ?L ?d t = Inr []"
    by (simp add: demo_lib_def demo_page_def)
  have hit: "soup_select ?L ?d ''.news-item'' = Inr ?es"
    by (simp add: demo_lib_def demo_page_def)
  have ne: "?es \<noteq> []"
    by simp
  have sels: "selectors_or None news_selectors
      = [''article'', ''.article''] @ ''.news-item'' # drop 3 news_selectors"
    by (simp add: selectors_or_def news_selectors_def)
  have body: "news_body ?L ''https://x.test'' news_item_tag
      = Inr (Some \<lparr>news_title = ''Title'', news_link = ''https://x.test/a'', news_summary = ''body'',
           news_date = [], news_author = [], news_source = ''https://x.test'',
           news_type = ''news''\<rparr>)"
    by (simp add: news_body_def news_item_tag_def demo_lib_def text_or_def joined_attr_def
        date_of_def slice_to_def demo_urljoin_def demo_urlparse_def Let_def)
  have broken: "news_body ?L ''https://x.test'' broken_item_tag = Inl (Exn ''Invalid IPv6 URL'')"
    by (simp add: news_body_def broken_item_tag_def demo_lib_def text_or_def joined_attr_def
        date_of_def slice_to_def demo_urljoin_def demo_urlparse_def Let_def)
  have slice: "slice_to (max_items demo_scraper) ?es = ?es"
    by (simp add: slice_to_def demo_scraper_def)
  have links: "link_error ?L ''https://x.test'' (tag_find ?L news_item_tag [''a'']) ''href'' = None"
    "link_error ?L ''https://x.test'' (tag_find ?L broken_item_tag [''a'']) ''href''
       = Some (Exn ''Invalid IPv6 URL'')"
    by (simp_all add: link_error_def news_item_tag_def broken_item_tag_def demo_lib_def
        demo_urljoin_def demo_urlparse_def Let_def)
  from selector_fallback [OF third_selector_web_page earlier hit ne, of None "drop 3 news_selectors"]
  have "selectors_or None news_selectors = [''article'', ''.article''] @ ''.news-item'' # drop 3 news_selectors \<longrightarrow>
        (\<exists>arts. fst (scrape_news_articles ?L demo_scraper ''https://x.test'' None) = Inr arts
           \<and> (\<forall>a \<in> set arts. \<exists>e \<in> set (slice_to (max_items demo_scraper) ?es).
                  news_body ?L ''https://x.test'' e = Inr (Some a))
           \<and> length arts
               = length (filter (\<lambda>e. link_error ?L ''https://x.test'' (tag_find ?L e [''a'']) ''href'' = None)
                           (slice_to (max_items demo_scraper) ?es))
           \<and> (arts \<noteq> [] \<longleftrightarrow>
                (\<exists>e \<in> set (slice_to (max_items demo_scraper) ?es).
                   link_error ?L ''https://x.test'' (tag_find ?L e [''a'']) ''href'' = None)))"
    by (rule conjunct1)
  with sels obtain arts where
    res: "fst (scrape_news_articles ?L demo_scraper ''https://x.test'' None) = Inr arts"
    and len: "length arts
               = length (filter (\<lambda>e. link_error ?L ''https://x.test'' (tag_find ?L e [''a'']) ''href'' = None)
                           (slice_to (max_items demo_scraper) ?es))"
    by blast
  from len have "length arts = 1"
    by (simp add: slice links)
  moreover have "fst (scrape_news_articles ?L demo_scraper ''https://x.test'' None)
      = Inr [\<lparr>news_title = ''Title'', news_link = ''https://x.test/a'', news_summary = ''body'',
           news_date = [], news_author = [], news_source = ''https://x.test'',
           news_type = ''news''\<rparr>]"
    using scrape_news_articles_match [OF third_selector_web_page, of None ?es]
      first_match_commits [OF earlier hit ne, of "drop 3 news_selectors"] sels
    by (simp add: slice body broken)
  ultimately show ?thesis
    using res by simp
qed

text \<open>
  C1 as stated fails for the generic profile: a document that only the third generic
  selector, \<open>span\<close>, matches, in an element with the text \<open>hi\<close>, gives an empty result.
\<close>

theorem third_selector_empty_result:
  "take 3 generic_selectors = [''p'', ''div'', ''span'']
   \<and> map (soup_select (demo_lib short_span_web []) (demo_page ''span'' [DemoTag ''span'' [] [] ''hi'' []]))
        generic_selectors
      = [Inr [], Inr [], Inr [DemoTag ''span'' [] [] ''hi'' []], Inr [], Inr [], Inr [], Inr [], Inr []]
   \<and> fst (scrape_generic_content (demo_lib short_span_web []) demo_scraper ''https://x.test'' None)
      = Inr []"
  by (simp add: scrape_generic_content_def short_span_web_page)
     (simp add: demo_lib_def demo_scraper_def demo_page_def selectors_or_def generic_selectors_def
      generic_body_def slice_to_def Let_def)

text \<open>
  C8, as the code has it. Every record comes from one of the matched elements. The summary
  of a news article is the first 200 characters of the text of the summary element, the
  content of a social post the first 300 characters of the text of the content element,
  the text of a generic record the first 500 characters of the text of the element: they
  have at most 200, 300 and 500 characters. Titles and names are not cut: the title of a
  news article is the whole text of the title element (or \<open>No title\<close>), the name of a
  product the whole text of the name element (or \<open>No name\<close>).
\<close>

theorem truncated_fields:
  "(\<forall>arts a. fst (scrape_news_articles L S base_url custom) = Inr arts \<and> a \<in> set arts \<longrightarrow>
      (\<exists>soup es e. fst (get_page L S base_url) = Inr (Some soup)
         \<and> first_match (soup_select L soup) (selectors_or custom news_selectors) = Inr es
         \<and> e \<in> set es
         \<and> news_title a = (case tag_find L e [''h1'', ''h2'', ''h3'', ''h4'', ''.title'', ''.headline''] of
                             None \<Rightarrow> ''No title'' | Some t \<Rightarrow> tag_get_text L t True)
         \<and> news_summary a = (case tag_find L e [''p'', ''.summary'', ''.excerpt'', ''.description''] of
                               None \<Rightarrow> [] | Some t \<Rightarrow> take 200 (tag_get_text L t True))
         \<and> length (news_summary a) \<le> 200))
   \<and> (\<forall>ps p. fst (scrape_product_listings L S base_url custom) = Inr ps \<and> p \<in> set ps \<longrightarrow>
      (\<exists>soup es e. fst (get_page L S base_url) = Inr (Some soup)
         \<and> first_match (soup_select L soup) (selectors_or custom product_selectors) = Inr es
         \<and> e \<in> set es
         \<and> product_name p = (case tag_find L e [''h1'', ''h2'', ''h3'', ''.product-name'', ''.title'', ''.name''] of
                               None \<Rightarrow> ''No name'' | Some t \<Rightarrow> tag_get_text L t True)))
   \<and> (\<forall>ps p. fst (scrape_social_media_posts L S base_url custom) = Inr ps \<and> p \<in> set ps \<longrightarrow>
      (\<exists>soup es e. fst (get_page L S base_url) = Inr (Some soup)
         \<and> first_match (soup_select L soup) (selectors_or custom social_selectors) = Inr es
         \<and> e \<in> set es
         \<and> post_content p = take 300 (case tag_find L e [''.content'', ''.text'', ''p'', ''.message-body''] of
                                        None \<Rightarrow> [] | Some t \<Rightarrow> tag_get_text L t True)
         \<and> length (post_content p) \<le> 300))
   \<and> (\<forall>gs g. fst (scrape_generic_content L S base_url custom) = Inr gs \<and> g \<in> set gs \<longrightarrow>
      (\<exists>soup es e. fst (get_page L S base_url) = Inr (Some soup)
         \<and> first_match (soup_select L soup) (selectors_or custom generic_selectors) = Inr es
         \<and> e \<in> set es
         \<and> generic_text g = take 500 (tag_get_text L e True)
         \<and> length (generic_text g) \<le> 500))"
proof (intro conjI allI impI)
  fix arts a
  assume "fst (scrape_news_articles L S base_url custom) = Inr arts \<and> a \<in> set arts"
  then obtain soup es e where o: "fst (get_page L S base_url) = Inr (Some soup)"
    "first_match (soup_select L soup) (selectors_or custom news_selectors) = Inr es"
    "e \<in> set es" "news_body L base_url e = Inr (Some a)"
    using scrape_news_articles_origin by blast
  from news_body_fields [OF o(4)] have "length (news_summary a) \<le> 200"
    by (simp split: option.splits)
  with o news_body_fields [OF o(4)]
  show "\<exists>soup es e. fst (get_page L S base_url) = Inr (Some soup)
         \<and> first_match (soup_select L soup) (selectors_or custom news_selectors) = Inr es
         \<and> e \<in> set es
         \<and> news_title a = (case tag_find L e [''h1'', ''h2'', ''h3'', ''h4'', ''.title'', ''.headline''] of
                             None \<Rightarrow> ''No title'' | Some t \<Rightarrow> tag_get_text L t True)
         \<and> news_summary a = (case tag_find L e [''p'', ''.summary'', ''.excerpt'', ''.description''] of
                               None \<Rightarrow> [] | Some t \<Rightarrow> take 200 (tag_get_text L t True))
         \<and> length (news_summary a) \<le> 200"
    by blast
next
  fix ps p
  assume "fst (scrape_product_listings L S base_url custom) = Inr ps \<and> p \<in> set ps"
  then obtain soup es e where o: "fst (get_page L S base_url) = Inr (Some soup)"
    "first_match (soup_select L soup) (selectors_or custom product_selectors) = Inr es"
    "e \<in> set es" "product_body L base_url e = Inr (Some p)"
    using scrape_product_listings_origin by blast
  with product_body_fields [OF o(4)]
  show "\<exists>soup es e. fst (get_page L S base_url) = Inr (Some soup)
         \<and> first_match (soup_select L soup) (selectors_or custom product_selectors) = Inr es
         \<and> e \<in> set es
         \<and> product_name p = (case tag_find L e [''h1'', ''h2'', ''h3'', ''.product-name'', ''.title'', ''.name''] of
                               None \<Rightarrow> ''No name'' | Some t \<Rightarrow> tag_get_text L t True)"
    by blast
next
  fix ps p
  assume "fst (scrape_social_media_posts L S base_url custom) = Inr ps \<and> p \<in> set ps"
  then obtain soup es e where o: "fst (get_page L S base_url) = Inr (Some soup)"
    "first_match (soup_select L soup) (selectors_or custom social_selectors) = Inr es"
    "e \<in> set es" "social_body L base_url e = Inr (Some p)"
    using scrape_social_media_posts_origin by blast
  from social_body_fields [OF o(4)] have "length (post_content p) \<le> 300"
    by simp
  with o social_body_fields [OF o(4)]
  show "\<exists>soup es e. fst (get_page L S base_url) = Inr (Some soup)
         \<and> first_match (soup_select L soup) (selectors_or custom social_selectors) = Inr es
         \<and> e \<in> set es
         \<and> post_content p = take 300 (case tag_find L e [''.content'', ''.text'', ''p'', ''.message-body''] of
                                        None \<Rightarrow> [] | Some t \<Rightarrow> tag_get_text L t True)
         \<and> length (post_content p) \<le> 300"
    by blast
next
  fix gs g
  assume "fst (scrape_generic_content L S base_url custom) = Inr gs \<and> g \<in> set gs"
  then obtain soup es e where o: "fst (get_page L S base_url) = Inr (Some soup)"
    "first_match (soup_select L soup) (selectors_or custom generic_selectors) = Inr es"
    "e \<in> set es" "generic_body L base_url e = Inr (Some g)"
    using scrape_generic_content_origin by blast
  from generic_body_fields [OF o(4)] have "length (generic_text g) \<le> 500"
    by simp
  with o generic_body_fields [OF o(4)]
  show "\<exists>soup es e. fst (get_page L S base_url) = Inr (Some soup)
         \<and> first_match (soup_select L soup) (selectors_or custom generic_selectors) = Inr es
         \<and> e \<in> set es
         \<and> generic_text g = take 500 (tag_get_text L e True)
         \<and> length (generic_text g) \<le> 500"
    by blast
qed

text \<open>The article of a page whose heading has 501 characters.\<close>

lemma long_title_result:
  "fst (scrape_news_articles (demo_lib long_title_web []) demo_scraper ''https://x.test'' None)
     = Inr [\<lparr>news_title = long_title, news_link = [], news_summary = take 200 long_title,
             news_date = [], news_author = [], news_source = ''https://x.test'',
             news_type = ''news''\<rparr>]"
  by (simp add: scrape_news_articles_def get_page_def can_fetch_def demo_lib_def demo_scraper_def
      demo_urlparse_def long_title_web_def demo_page_def selectors_or_def news_selectors_def
      news_body_def text_or_def joined_attr_def date_of_def slice_to_def Let_def)

text \<open>C8, as the code has it, at that page: the summary has 200 characters.\<close>

theorem truncated_fields_witness:
  "fst (scrape_news_articles (demo_lib long_title_web []) demo_scraper ''https://x.test'' None)
     = Inr [\<lparr>news_title = long_title, news_link = [], news_summary = take 200 long_title,
             news_date = [], news_author = [], news_source = ''https://x.test'',
             news_type = ''news''\<rparr>]
   \<and> length (take 200 long_title) \<le> 200"
  using truncated_fields [of "demo_lib long_title_web []" demo_scraper "''https://x.test''" None]
    long_title_result
  by simp

text \<open>
  C8 as stated fails for titles: the title of that article has all 501 characters of the
  heading, more than any cap between 200 and 500.
\<close>

theorem title_not_truncated:
  "fst (scrape_news_articles (demo_lib long_title_web []) demo_scraper ''https://x.test'' None)
     = Inr [\<lparr>news_title = long_title, news_link = [], news_summary = take 200 long_title,
             news_date = [], news_author = [], news_source = ''https://x.test'',
             news_type = ''news''\<rparr>]
   \<and> length long_title = 501"
  using long_title_result by (simp add: long_title_def)

text \<open>
  C9, as the code has it. On a fetched document whose first matching selector matches the
  elements \<open>found\<close>, the generic profile looks at the first \<^verbatim>\<open>max_items\<close> of them. The
  texts of its records are, in order, the texts (cut to 500 characters) of those with a
  text of more than 20 characters on whose link \<^verbatim>\<open>urljoin\<close> does not raise. For each
  of those with a text of more than 20 characters on whose link it raises, an error with
  the cause is logged after the events of the fetch, and nothing else is logged. An element
  with a text of 20 characters or fewer gives no record and no log entry.
\<close>

theorem generic_text_filter:
  assumes page: "get_page L S base_url = (Inr (Some soup), ev)"
    and found: "first_match (soup_select L soup) (selectors_or custom generic_selectors) = Inr found"
  shows "\<exists>items.
           scrape_generic_content L S base_url custom
             = (Inr items,
                ev @ map (\<lambda>e. LogError (''Error parsing content: ''
                                  @ str_of_exn (the (link_error L base_url (link_element L e) ''href''))))
                       (filter (\<lambda>e. 20 < length (tag_get_text L e True)
                                   \<and> link_error L base_url (link_element L e) ''href'' \<noteq> None)
                          (slice_to (max_items S) found)))
           \<and> map generic_text items
               = map (\<lambda>e. take 500 (tag_get_text L e True))
                   (filter (\<lambda>e. 20 < length (tag_get_text L e True)
                               \<and> link_error L base_url (link_element L e) ''href'' = None)
                      (slice_to (max_items S) found))"
proof -
  let ?xs = "slice_to (max_items S) found"
  let ?run = "for_each_element (generic_body L base_url) ''Error parsing content: '' ?xs"
  have "scrape_generic_content L S base_url custom = (Inr (fst ?run), ev @ snd ?run)"
    using page found by (simp add: scrape_generic_content_def Let_def split: prod.splits)
  moreover have "snd ?run
      = map (\<lambda>e. LogError (''Error parsing content: ''
                      @ str_of_exn (the (link_error L base_url (link_element L e) ''href''))))
          (filter (\<lambda>e. 20 < length (tag_get_text L e True)
                       \<and> link_error L base_url (link_element L e) ''href'' \<noteq> None) ?xs)"
    by (simp only: for_each_element_events generic_errors)
  moreover have "map generic_text (fst ?run)
      = map (\<lambda>e. take 500 (tag_get_text L e True))
          (filter (\<lambda>e. 20 < length (tag_get_text L e True)
                      \<and> link_error L base_url (link_element L e) ''href'' = None) ?xs)"
    by (simp add: generic_texts generic_kept slice_to_take)
  ultimately show ?thesis by simp
qed

text \<open>The records of a page with a paragraph of 20 and a paragraph of 21 characters.\<close>

lemma twenty_web_result:
  "fst (scrape_generic_content (demo_lib twenty_web []) demo_scraper ''https://x.test'' None)
   = Inr [\<lparr>generic_text = ''123456789012345678901'', generic_link = [], generic_tag = ''p'',
           generic_classes = ''lead'', generic_source = ''https://x.test'',
           generic_type = ''generic''\<rparr>]"
  by (simp add: scrape_generic_content_def twenty_web_page)
     (simp add: demo_lib_def demo_scraper_def demo_page_def selectors_or_def generic_selectors_def
      generic_body_def joined_attr_def slice_to_def Let_def)

text \<open>
  C9, as the code has it, at a page with paragraphs of 20 and of 21 characters and a longer
  one with a link on which \<^verbatim>\<open>urljoin\<close> raises: one record, and one error logged.
\<close>

theorem generic_text_filter_witness:
  "\<exists>items.
     scrape_generic_content (demo_lib broken_link_web []) demo_scraper ''https://x.test'' None
       = (Inr items,
          [RobotsRead ''https://x.test/robots.txt'', HttpGet ''https://x.test'', Sleep 1,
           LogError ''Error parsing content: Invalid IPv6 URL''])
     \<and> map generic_text items = [''123456789012345678901'']"
proof -
  let ?found = "[DemoTag ''p'' [] [] ''12345678901234567890'' [],
          DemoTag ''p'' [] [''lead''] ''123456789012345678901'' [],
          DemoTag ''p'' [] [] ''a paragraph with a broken link''
            [DemoTag ''a'' [(''href'', ''http://['')] [] ''link'' []]]"
  have m: "first_match (soup_select (demo_lib broken_link_web []) (demo_page ''p'' ?found))
          (selectors_or None generic_selectors) = Inr ?found"
    by (simp add: demo_lib_def demo_page_def selectors_or_def generic_selectors_def)
  from generic_text_filter [OF broken_link_web_page m]
  show ?thesis
    by (simp add: demo_lib_def demo_scraper_def link_error_def link_element_def slice_to_def
        demo_urljoin_def demo_urlparse_def Let_def)
qed

text \<open>
  C9 as stated fails at 20 characters: both paragraphs are matched by the first selector,
  \<open>p\<close>, and the one with a text of exactly 20 characters gives no record.
\<close>

theorem twenty_characters_filtered:
  "length ''12345678901234567890'' = 20
   \<and> soup_select (demo_lib twenty_web []) (demo_page ''p''
         [DemoTag ''p'' [] [] ''12345678901234567890'' [],
          DemoTag ''p'' [] [''lead''] ''123456789012345678901'' []]) ''p''
      = Inr [DemoTag ''p'' [] [] ''12345678901234567890'' [],
          DemoTag ''p'' [] [''lead''] ''123456789012345678901'' []]
   \<and> fst (scrape_generic_content (demo_lib twenty_web []) demo_scraper ''https://x.test'' None)
   = Inr [\<lparr>generic_text = ''123456789012345678901'', generic_link = [], generic_tag = ''p'',
           generic_classes = ''lead'', generic_source = ''https://x.test'',
           generic_type = ''generic''\<rparr>]"
  using twenty_web_result by (simp add: demo_lib_def demo_page_def)

section \<open>The search across pages\<close>

subsection \<open>The requests of a fetch\<close>

lemma http_gets_append: "http_gets (ev @ ev') = http_gets ev @ http_gets ev'"
  by (induction ev rule: http_gets.induct) auto

lemma http_gets_can_fetch: "http_gets (snd (can_fetch L S url)) = []"
  by (auto simp: can_fetch_def Let_def split: sum.splits)

lemma http_gets_get_page:
  "http_gets (snd (get_page L S url)) = [] \<or> http_gets (snd (get_page L S url)) = [url]"
  using http_gets_can_fetch [of L S url]
  by (auto simp: get_page_def http_gets_append split: sum.splits prod.splits option.splits)

lemma in_http_gets: "(u \<in> set (http_gets ev)) = (HttpGet u \<in> set ev)"
  by (induction ev rule: http_gets.induct) auto

lemma get_page_success_events:
  assumes "fst (get_page L S url) = Inr (Some soup)"
  shows "HttpGet url \<in> set (snd (get_page L S url))"
  using assms
  by (auto simp: get_page_def split: sum.splits prod.splits option.splits if_splits)

lemma get_page_events_url:
  "HttpGet u \<in> set (snd (get_page L S url)) \<Longrightarrow> u = url"
  using http_gets_get_page [of L S url] in_http_gets [of u "snd (get_page L S url)"]
  by auto

subsection \<open>One iteration\<close>

text \<open>
  An entry whose address is visited, or whose depth is beyond the maximum, is dropped: the
  iteration changes nothing. Otherwise the address is marked visited and \<open>get_page\<close> is
  called once, whatever it returns.
\<close>

lemma crawl_body_discard:
  "url \<in> visited st \<or> max_depth < depth \<Longrightarrow> crawl_body L S kws max_depth url depth st = (None, st)"
  by (simp add: crawl_body_def)

lemma crawl_body_visited:
  assumes "url \<notin> visited st" and "depth \<le> max_depth"
  shows "visited (snd (crawl_body L S kws max_depth url depth st)) = insert url (visited st)"
    and "events (snd (crawl_body L S kws max_depth url depth st)) = events st @ snd (get_page L S url)"
  using assms
  by (auto simp: crawl_body_def Let_def split: prod.splits sum.splits option.splits)

lemma keyword_hits_set:
  "set (keyword_hits L url text kws)
   = {\<lparr>hit_url = url, hit_keyword = kw, hit_count = str_count (str_lower L text) (str_lower L kw),
       hit_type = ''keyword_search''\<rparr> | kw. kw \<in> set kws \<and> 0 < str_count (str_lower L text) (str_lower L kw)}"
  by (induction kws) (auto simp: Let_def)

lemma crawl_body_results:
  assumes "url \<notin> visited st" and "depth \<le> max_depth"
  shows "results (snd (crawl_body L S kws max_depth url depth st))
         = results st @ (case fst (get_page L S url) of
                           Inr (Some soup) \<Rightarrow> keyword_hits L url (soup_get_text L soup) kws
                         | _ \<Rightarrow> [])"
  using assms
  by (auto simp: crawl_body_def Let_def split: prod.splits sum.splits option.splits)

lemma enqueue_links_appends:
  assumes "enqueue_links L url depth vis qu hrefs = (r, qu')"
  shows "\<exists>new. qu' = qu @ new \<and> (\<forall>(u, k) \<in> set new. k = depth + 1)"
  using assms
proof (induction hrefs arbitrary: qu)
  case Nil
  then show ?case by simp
next
  case (Cons href hrefs)
  show ?case
  proof (cases "lib_urljoin L url href")
    case (Inl e)
    with Cons.prems show ?thesis by simp
  next
    case (Inr link)
    show ?thesis
    proof (cases "lib_urlparse L link")
      case (Inl e)
      with Inr Cons.prems show ?thesis by simp
    next
      case parsed: (Inr p)
      let ?qu = "if (scheme p = ''http'' \<or> scheme p = ''https'') \<and> link \<notin> vis
                 then qu @ [(link, depth + 1)] else qu"
      from Cons.prems Inr parsed have "enqueue_links L url depth vis ?qu hrefs = (r, qu')"
        by simp
      from Cons.IH [OF this] obtain new where "qu' = ?qu @ new" "\<forall>(u, k) \<in> set new. k = depth + 1"
        by blast
      then show ?thesis
        by (cases "(scheme p = ''http'' \<or> scheme p = ''https'') \<and> link \<notin> vis") auto
    qed
  qed
qed

lemma crawl_body_queue:
  "\<exists>new. queue (snd (crawl_body L S kws max_depth url depth st)) = queue st @ new
         \<and> (new \<noteq> [] \<longrightarrow> depth < max_depth) \<and> (\<forall>(u, k) \<in> set new. k = depth + 1)"
proof (cases "url \<in> visited st \<or> max_depth < depth")
  case True
  then show ?thesis by (simp add: crawl_body_discard)
next
  case False
  obtain r ev where page: "get_page L S url = (r, ev)"
    by (cases "get_page L S url")
  show ?thesis
  proof (cases r)
    case (Inl e)
    with False page show ?thesis by (simp add: crawl_body_def)
  next
    case (Inr found)
    show ?thesis
    proof (cases found)
      case None
      with False page Inr show ?thesis by (simp add: crawl_body_def)
    next
      case (Some soup)
      show ?thesis
      proof (cases "depth < max_depth")
        case no: False
        with False page Inr Some show ?thesis by (simp add: crawl_body_def Let_def)
      next
        case True
        obtain x qu' where enq: "enqueue_links L url depth (insert url (visited st)) (queue st)
            (soup_find_all_a L soup) = (x, qu')"
          by (cases "enqueue_links L url depth (insert url (visited st)) (queue st) (soup_find_all_a L soup)")
        from enqueue_links_appends [OF enq] obtain new
          where "qu' = queue st @ new" "\<forall>(u, k) \<in> set new. k = depth + 1"
          by blast
        with False page Inr Some True enq show ?thesis
          by (cases x) (auto simp: crawl_body_def Let_def)
      qed
    qed
  qed
qed

subsection \<open>The loop\<close>

lemma crawl_loop_empty:
  "queue st = [] \<Longrightarrow> crawl_loop L S kws max_depth max_pages st = (None, st)"
  by (subst crawl_loop.simps) simp

lemma crawl_loop_budget:
  "\<not> pages_crawled st < max_pages \<Longrightarrow> crawl_loop L S kws max_depth max_pages st = (None, st)"
  by (subst crawl_loop.simps) (simp split: list.splits prod.splits)

lemma crawl_loop_step:
  assumes "queue st = (url, depth) # rest" and "pages_crawled st < max_pages"
    and "crawl_body L S kws max_depth url depth (st\<lparr>queue := rest\<rparr>) = (r, st')"
  shows "crawl_loop L S kws max_depth max_pages st
         = (case r of Some e \<Rightarrow> (Some e, st') | None \<Rightarrow> crawl_loop L S kws max_depth max_pages st')"
  using assms by (subst crawl_loop.simps) (simp split: option.splits)

declare crawl_loop.simps [simp del]

text \<open>
  What every iteration keeps, and the state before the loop has, holds of the state in which
  the loop ends, also when an exception ends it.
\<close>

lemma crawl_loop_invariant:
  assumes "P st"
    and "\<And>st url depth rest. P st \<Longrightarrow> queue st = (url, depth) # rest \<Longrightarrow> pages_crawled st < max_pages
           \<Longrightarrow> P (snd (crawl_body L S kws max_depth url depth (st\<lparr>queue := rest\<rparr>)))"
  shows "P (snd (crawl_loop L S kws max_depth max_pages st))"
  using assms
proof (induction L S kws max_depth max_pages st rule: crawl_loop.induct)
  case (1 L S kws max_depth max_pages st)
  show ?case
  proof (cases "queue st")
    case Nil
    with "1.prems"(1) show ?thesis
      by (subst crawl_loop.simps) simp
  next
    case (Cons entry rest)
    obtain url depth where entry: "entry = (url, depth)"
      by (cases entry)
    show ?thesis
    proof (cases "pages_crawled st < max_pages")
      case False
      with Cons "1.prems"(1) show ?thesis
        by (subst crawl_loop.simps) (simp split: prod.splits)
    next
      case True
      obtain r st' where body: "crawl_body L S kws max_depth url depth (st\<lparr>queue := rest\<rparr>) = (r, st')"
        by (cases "crawl_body L S kws max_depth url depth (st\<lparr>queue := rest\<rparr>)")
      from "1.prems"(2) [OF "1.prems"(1), of url depth rest] Cons entry True body
      have P': "P st'" by simp
      show ?thesis
      proof (cases r)
        case None
        have "P (snd (crawl_loop L S kws max_depth max_pages st'))"
          using "1.IH" [OF Cons entry [symmetric] True body [symmetric] None P'] "1.prems"(2)
          by blast
        with Cons entry True body None show ?thesis
          by (subst crawl_loop.simps) simp
      next
        case (Some e)
        with Cons entry True body P' show ?thesis
          by (subst crawl_loop.simps) simp
      qed
    qed
  qed
qed

text \<open>The state in which the loop ends without an exception is one of the states of the search.\<close>

lemma crawl_loop_reachable:
  assumes "reachable L S kws max_depth max_pages start_urls st"
    and "crawl_loop L S kws max_depth max_pages st = (None, st')"
  shows "reachable L S kws max_depth max_pages start_urls st'"
  using assms
proof (induction L S kws max_depth max_pages st rule: crawl_loop.induct)
  case (1 L S kws max_depth max_pages st)
  show ?case
  proof (cases "queue st")
    case Nil
    with "1.prems" show ?thesis
      by (simp add: crawl_loop_empty)
  next
    case (Cons entry rest)
    obtain url depth where entry: "entry = (url, depth)"
      by (cases entry)
    show ?thesis
    proof (cases "pages_crawled st < max_pages")
      case False
      with "1.prems" show ?thesis
        by (simp add: crawl_loop_budget)
    next
      case True
      obtain r st1 where body: "crawl_body L S kws max_depth url depth (st\<lparr>queue := rest\<rparr>) = (r, st1)"
        by (cases "crawl_body L S kws max_depth url depth (st\<lparr>queue := rest\<rparr>)")
      from Cons entry have head: "queue st = (url, depth) # rest"
        by simp
      from "1.prems"(2) crawl_loop_step [OF head True body]
      have r: "r = None" and loop: "crawl_loop L S kws max_depth max_pages st1 = (None, st')"
        by (cases r; simp)+
      from "1.prems"(1) head True body r
      have "reachable L S kws max_depth max_pages start_urls st1"
        by (auto intro: reachable.iterate)
      from "1.IH" [OF Cons entry [symmetric] True body [symmetric] r this loop]
      show ?thesis .
    qed
  qed
qed

lemma fetch_inv_step:
  assumes "fetch_inv st"
  shows "fetch_inv (snd (crawl_body L S kws max_depth url depth (st\<lparr>queue := rest\<rparr>)))"
proof (cases "url \<in> visited st \<or> max_depth < depth")
  case True
  then have "crawl_body L S kws max_depth url depth (st\<lparr>queue := rest\<rparr>) = (None, st\<lparr>queue := rest\<rparr>)"
    by (simp add: crawl_body_discard)
  with assms show ?thesis
    by (simp add: fetch_inv_def)
next
  case False
  then have a: "url \<notin> visited (st\<lparr>queue := rest\<rparr>)" and b: "depth \<le> max_depth"
    by simp_all
  from crawl_body_visited [OF a b, of L S kws] http_gets_get_page [of L S url] assms False
  show ?thesis
    by (auto simp: fetch_inv_def http_gets_append)
qed

lemma reachable_depth_inv:
  assumes "reachable L S kws max_depth max_pages start_urls st"
  shows "depth_inv max_depth st"
  using assms
proof (induction rule: reachable.induct)
  case start
  show ?case by (auto simp: depth_inv_def start_state_def)
next
  case (iterate st url depth rest st')
  from crawl_body_queue [of L S kws max_depth url depth "st\<lparr>queue := rest\<rparr>"] iterate.hyps(4)
  obtain new where new: "queue st' = rest @ new" "new \<noteq> [] \<longrightarrow> depth < max_depth"
      "\<forall>(u, k) \<in> set new. k = depth + 1"
    by auto
  from iterate.IH iterate.hyps(2) have old: "\<forall>(u, k) \<in> set rest. 0 \<le> k \<and> (k = 0 \<or> k \<le> max_depth)"
    and d: "0 \<le> depth"
    by (auto simp: depth_inv_def)
  have "\<forall>(u, k) \<in> set new. 0 \<le> k \<and> (k = 0 \<or> k \<le> max_depth)"
  proof (cases "new = []")
    case True
    then show ?thesis by simp
  next
    case False
    with new(2) have "depth < max_depth" by simp
    with new(3) d show ?thesis by auto
  qed
  with old new(1) show ?case
    by (auto simp: depth_inv_def)
qed

lemma hits_inv_step:
  assumes inv: "hits_inv L S kws st"
  shows "hits_inv L S kws (snd (crawl_body L S kws max_depth url depth (st\<lparr>queue := rest\<rparr>)))"
proof (cases "url \<in> visited st \<or> max_depth < depth")
  case True
  then have "crawl_body L S kws max_depth url depth (st\<lparr>queue := rest\<rparr>) = (None, st\<lparr>queue := rest\<rparr>)"
    by (simp add: crawl_body_discard)
  with inv show ?thesis
    by (simp add: hits_inv_def)
next
  case False
  let ?st' = "snd (crawl_body L S kws max_depth url depth (st\<lparr>queue := rest\<rparr>))"
  let ?new = "case fst (get_page L S url) of
                Inr (Some soup) \<Rightarrow> keyword_hits L url (soup_get_text L soup) kws
              | _ \<Rightarrow> []"
  from False have a: "url \<notin> visited (st\<lparr>queue := rest\<rparr>)" and b: "depth \<le> max_depth"
    by simp_all
  have ev: "events ?st' = events st @ snd (get_page L S url)"
    using crawl_body_visited(2) [OF a b, of L S kws] by simp
  have res: "results ?st' = results st @ ?new"
    using crawl_body_results [OF a b, of L S kws] by simp
  have new: "\<forall>r \<in> set ?new. hit_url r = url \<and> hit_keyword r \<in> set kws \<and> 0 < hit_count r
      \<and> (\<exists>soup. fst (get_page L S url) = Inr (Some soup)
            \<and> hit_count r = str_count (str_lower L (soup_get_text L soup)) (str_lower L (hit_keyword r)))"
  proof (cases "fst (get_page L S url)")
    case (Inl e)
    then show ?thesis by simp
  next
    case (Inr found)
    then show ?thesis
      by (cases found) (auto simp: keyword_hits_set)
  qed
  have first: "\<forall>r \<in> set (results ?st').
         HttpGet (hit_url r) \<in> set (events ?st') \<and> hit_keyword r \<in> set kws \<and> 0 < hit_count r
         \<and> (\<exists>soup. fst (get_page L S (hit_url r)) = Inr (Some soup)
               \<and> hit_count r = str_count (str_lower L (soup_get_text L soup)) (str_lower L (hit_keyword r)))"
  proof
    fix r assume "r \<in> set (results ?st')"
    then consider "r \<in> set (results st)" | "r \<in> set ?new"
      unfolding res by auto
    then show "HttpGet (hit_url r) \<in> set (events ?st') \<and> hit_keyword r \<in> set kws \<and> 0 < hit_count r
         \<and> (\<exists>soup. fst (get_page L S (hit_url r)) = Inr (Some soup)
               \<and> hit_count r = str_count (str_lower L (soup_get_text L soup)) (str_lower L (hit_keyword r)))"
    proof cases
      case 1
      with inv show ?thesis
        unfolding ev by (simp add: hits_inv_def)
    next
      case 2
      with new obtain soup where r: "hit_url r = url" "hit_keyword r \<in> set kws" "0 < hit_count r"
        "fst (get_page L S url) = Inr (Some soup)"
        "hit_count r = str_count (str_lower L (soup_get_text L soup)) (str_lower L (hit_keyword r))"
        by blast
      from get_page_success_events [OF r(4)] r show ?thesis
        unfolding ev by auto
    qed
  qed
  have second: "\<lparr>hit_url = u, hit_keyword = kw,
                  hit_count = str_count (str_lower L (soup_get_text L soup)) (str_lower L kw),
                  hit_type = ''keyword_search''\<rparr> \<in> set (results ?st')"
    if h: "HttpGet u \<in> set (events ?st')" "fst (get_page L S u) = Inr (Some soup)"
       "kw \<in> set kws" "0 < str_count (str_lower L (soup_get_text L soup)) (str_lower L kw)"
    for u soup kw
  proof (cases "HttpGet u \<in> set (events st)")
    case True
    with inv h show ?thesis
      unfolding res hits_inv_def by auto
  next
    case False
    with h(1) have "HttpGet u \<in> set (snd (get_page L S url))"
      unfolding ev by simp
    then have "u = url"
      by (rule get_page_events_url)
    with h have "\<lparr>hit_url = u, hit_keyword = kw,
                  hit_count = str_count (str_lower L (soup_get_text L soup)) (str_lower L kw),
                  hit_type = ''keyword_search''\<rparr> \<in> set ?new"
      by (auto simp: keyword_hits_set)
    then show ?thesis
      unfolding res by simp
  qed
  from first second show ?thesis
    unfolding hits_inv_def by blast
qed

text \<open>The runs used below.\<close>

lemma cat_web_run:
  "search_keywords_across_web (demo_lib cat_web []) demo_scraper [''cat'', ''bird'']
     [''https://x.test''] 0 30
   = (Inr [\<lparr>hit_url = ''https://x.test'', hit_keyword = ''cat'', hit_count = 2,
             hit_type = ''keyword_search''\<rparr>],
      [RobotsRead ''https://x.test/robots.txt'', HttpGet ''https://x.test'', Sleep 1])"
  by code_simp

lemma cat_web_page:
  "fst (get_page (demo_lib cat_web []) demo_scraper ''https://x.test'')
   = Inr (Some (demo_text_page ''cat dog cat'' []))"
  by code_simp

lemma crawl_web_run:
  "search_keywords_across_web (demo_lib crawl_web []) demo_scraper [''cat'', ''bird'']
     [''https://x.test'', ''https://x.test''] 1 30
   = (Inr [\<lparr>hit_url = ''https://x.test'', hit_keyword = ''cat'', hit_count = 2,
             hit_type = ''keyword_search''\<rparr>,
           \<lparr>hit_url = ''https://x.test/a'', hit_keyword = ''cat'', hit_count = 1,
             hit_type = ''keyword_search''\<rparr>],
      [RobotsRead ''https://x.test/robots.txt'', HttpGet ''https://x.test'', Sleep 1,
       RobotsRead ''https://x.test/robots.txt'', HttpGet ''https://x.test/a'', Sleep 1])"
  by code_simp

lemma crawl_web_first_step:
  "crawl_body (demo_lib crawl_web []) demo_scraper [''cat''] 1 ''https://x.test'' 0
     ((start_state [''https://x.test''])\<lparr>queue := []\<rparr>)
   = (None,
      \<lparr>visited = {''https://x.test''},
       results = [\<lparr>hit_url = ''https://x.test'', hit_keyword = ''cat'', hit_count = 2,
                   hit_type = ''keyword_search''\<rparr>],
       queue = [(''https://x.test/a'', 1), (''https://x.test/a'', 1)],
       pages_crawled = 1,
       events = [RobotsRead ''https://x.test/robots.txt'', HttpGet ''https://x.test'', Sleep 1]\<rparr>)"
  by code_simp

text \<open>
  When the search returns, then for every page it has requested and \<open>get_page\<close>
  returns, and every keyword of the list, the results hold a record for that page and
  keyword if and only if the number of occurrences of the lowered keyword in the lowered
  text of the page is positive, and every such record carries that number. Every record
  is of a requested page and a keyword of the list, with a positive count.
\<close>

lemma keyword_records:
  assumes run: "search_keywords_across_web L S kws start_urls max_depth max_pages = (Inr res, evs)"
    and fetched: "HttpGet url \<in> set evs"
    and page: "fst (get_page L S url) = Inr (Some soup)"
    and kw: "kw \<in> set kws"
  shows "((\<exists>r \<in> set res. hit_url r = url \<and> hit_keyword r = kw)
            \<longleftrightarrow> 0 < str_count (str_lower L (soup_get_text L soup)) (str_lower L kw))
       \<and> (\<forall>r \<in> set res. hit_url r = url \<and> hit_keyword r = kw
            \<longrightarrow> hit_count r = str_count (str_lower L (soup_get_text L soup)) (str_lower L kw))
       \<and> (\<forall>r \<in> set res. HttpGet (hit_url r) \<in> set evs \<and> hit_keyword r \<in> set kws \<and> 0 < hit_count r)"
proof -
  let ?init = "start_state start_urls"
  let ?final = "snd (crawl_loop L S kws max_depth max_pages ?init)"
  have "hits_inv L S kws ?init"
    by (simp add: hits_inv_def start_state_def)
  then have inv: "hits_inv L S kws ?final"
    by (rule crawl_loop_invariant) (rule hits_inv_step)
  from run have res: "res = results ?final" and evs: "evs = events ?final"
    by (auto simp: search_keywords_across_web_def split: prod.splits option.splits)
  from inv have first: "\<forall>r \<in> set res.
         HttpGet (hit_url r) \<in> set evs \<and> hit_keyword r \<in> set kws \<and> 0 < hit_count r
         \<and> (\<exists>soup. fst (get_page L S (hit_url r)) = Inr (Some soup)
               \<and> hit_count r = str_count (str_lower L (soup_get_text L soup)) (str_lower L (hit_keyword r)))"
    unfolding hits_inv_def res evs by blast
  from inv fetched page kw have second:
    "0 < str_count (str_lower L (soup_get_text L soup)) (str_lower L kw) \<Longrightarrow>
       \<lparr>hit_url = url, hit_keyword = kw,
        hit_count = str_count (str_lower L (soup_get_text L soup)) (str_lower L kw),
        hit_type = ''keyword_search''\<rparr> \<in> set res"
    unfolding hits_inv_def res evs by blast
  have count: "hit_count r = str_count (str_lower L (soup_get_text L soup)) (str_lower L kw)"
    and pos: "0 < str_count (str_lower L (soup_get_text L soup)) (str_lower L kw)"
    if "r \<in> set res" "hit_url r = url" "hit_keyword r = kw" for r
    using first that page by auto
  show ?thesis
  proof (intro conjI)
    show "(\<exists>r \<in> set res. hit_url r = url \<and> hit_keyword r = kw)
            \<longleftrightarrow> 0 < str_count (str_lower L (soup_get_text L soup)) (str_lower L kw)"
    proof
      assume "\<exists>r \<in> set res. hit_url r = url \<and> hit_keyword r = kw"
      then show "0 < str_count (str_lower L (soup_get_text L soup)) (str_lower L kw)"
        using pos by blast
    next
      assume "0 < str_count (str_lower L (soup_get_text L soup)) (str_lower L kw)"
      from second [OF this] show "\<exists>r \<in> set res. hit_url r = url \<and> hit_keyword r = kw"
        by force
    qed
    show "\<forall>r \<in> set res. hit_url r = url \<and> hit_keyword r = kw
            \<longrightarrow> hit_count r = str_count (str_lower L (soup_get_text L soup)) (str_lower L kw)"
      using count by blast
    show "\<forall>r \<in> set res. HttpGet (hit_url r) \<in> set evs \<and> hit_keyword r \<in> set kws \<and> 0 < hit_count r"
      using first by blast
  qed
qed

text \<open>
  C2 fails in a run that an exception ends. The page at the start address is fetched and
  the keyword \<open>cat\<close> occurs in its text once; the page has a link on which \<^verbatim>\<open>urljoin\<close>
  raises, in the loop over the anchors and outside any \<^verbatim>\<open>try\<close>; with the maximum depth
  1 the search raises and returns no record for the page.
\<close>

theorem search_raises_on_link:
  "get_page (demo_lib bad_link_web []) demo_scraper ''https://x.test''
     = (Inr (Some (demo_text_page ''cat'' [''http://[''])),
        [RobotsRead ''https://x.test/robots.txt'', HttpGet ''https://x.test'', Sleep 1])
   \<and> str_count (demo_lower ''cat'') (demo_lower ''cat'') = 1
   \<and> search_keywords_across_web (demo_lib bad_link_web []) demo_scraper [''cat'']
         [''https://x.test''] 1 30
       = (Inl (Exn ''Invalid IPv6 URL''),
          [RobotsRead ''https://x.test/robots.txt'', HttpGet ''https://x.test'', Sleep 1])"
  by code_simp

text \<open>
  C3. In every run of the search, whatever the start addresses, the maximum depth and
  the page budget, no address is requested twice. An entry taken off the queue whose
  address is visited is dropped and nothing else changes; any other entry within the
  depth has its address marked visited, whatever the fetch returns, and \<open>get_page\<close> is
  called for it once.
\<close>

theorem no_url_fetched_twice:
  "distinct (http_gets (snd (search_keywords_across_web L S kws start_urls max_depth max_pages)))
   \<and> (\<forall>st url depth. url \<in> visited st
         \<longrightarrow> crawl_body L S kws max_depth url depth st = (None, st))
   \<and> (\<forall>st url depth. url \<notin> visited st \<and> depth \<le> max_depth
         \<longrightarrow> visited (snd (crawl_body L S kws max_depth url depth st)) = insert url (visited st)
             \<and> events (snd (crawl_body L S kws max_depth url depth st))
                 = events st @ snd (get_page L S url))"
proof -
  let ?init = "start_state start_urls"
  have "fetch_inv ?init"
    by (simp add: fetch_inv_def start_state_def)
  then have "fetch_inv (snd (crawl_loop L S kws max_depth max_pages ?init))"
    by (rule crawl_loop_invariant) (rule fetch_inv_step)
  then have "distinct (http_gets (snd (search_keywords_across_web L S kws start_urls max_depth max_pages)))"
    by (auto simp: search_keywords_across_web_def fetch_inv_def split: prod.splits option.splits)
  then show ?thesis
    by (simp add: crawl_body_discard crawl_body_visited)
qed

text \<open>
  C3 at a run that queues one address twice at the start and finds another address twice,
  and the start address again, among the links.
\<close>

theorem no_url_fetched_twice_witness:
  "http_gets (snd (search_keywords_across_web (demo_lib crawl_web []) demo_scraper [''cat'', ''bird'']
     [''https://x.test'', ''https://x.test''] 1 30))
   = [''https://x.test'', ''https://x.test/a'']
   \<and> distinct (http_gets (snd (search_keywords_across_web (demo_lib crawl_web []) demo_scraper
        [''cat'', ''bird''] [''https://x.test'', ''https://x.test''] 1 30)))"
  using no_url_fetched_twice [of "demo_lib crawl_web []" demo_scraper "[''cat'', ''bird'']"
      "[''https://x.test'', ''https://x.test'']" 1 30]
  by (simp add: crawl_web_run)

text \<open>
  C4. In every state of the search with maximum depth \<open>d\<close>, the iteration on the next
  entry \<open>(url, depth)\<close> drops the entry without a fetch, a result or a counted page when
  \<open>depth\<close> exceeds \<open>d\<close>; it has events (robots read, request, log entry) only when
  \<open>depth\<close> is between 0 and \<open>d\<close>; what it adds to the queue it adds at \<open>depth + 1\<close>,
  and only when \<open>depth\<close> is less than \<open>d\<close>; and every entry in the queue has depth 0
  or a depth between 0 and \<open>d\<close>.
\<close>

theorem depth_bound:
  assumes reach: "reachable L S kws max_depth max_pages start_urls st"
    and head: "queue st = (url, depth) # rest"
    and budget: "pages_crawled st < max_pages"
  shows "(max_depth < depth \<longrightarrow>
            crawl_body L S kws max_depth url depth (st\<lparr>queue := rest\<rparr>) = (None, st\<lparr>queue := rest\<rparr>))
       \<and> (events (snd (crawl_body L S kws max_depth url depth (st\<lparr>queue := rest\<rparr>))) \<noteq> events st
            \<longrightarrow> 0 \<le> depth \<and> depth \<le> max_depth)
       \<and> (\<exists>new. queue (snd (crawl_body L S kws max_depth url depth (st\<lparr>queue := rest\<rparr>))) = rest @ new
             \<and> (new \<noteq> [] \<longrightarrow> depth < max_depth) \<and> (\<forall>(u, k) \<in> set new. k = depth + 1))
       \<and> (\<forall>(u, k) \<in> set (queue st). 0 \<le> k \<and> (k = 0 \<or> k \<le> max_depth))"
proof (intro conjI impI)
  assume "max_depth < depth"
  then show "crawl_body L S kws max_depth url depth (st\<lparr>queue := rest\<rparr>) = (None, st\<lparr>queue := rest\<rparr>)"
    by (simp add: crawl_body_discard)
next
  assume ev: "events (snd (crawl_body L S kws max_depth url depth (st\<lparr>queue := rest\<rparr>))) \<noteq> events st"
  have "\<not> max_depth < depth"
  proof
    assume "max_depth < depth"
    then have "crawl_body L S kws max_depth url depth (st\<lparr>queue := rest\<rparr>) = (None, st\<lparr>queue := rest\<rparr>)"
      by (simp add: crawl_body_discard)
    with ev show False by simp
  qed
  moreover from reachable_depth_inv [OF reach] head have "0 \<le> depth"
    by (auto simp: depth_inv_def)
  ultimately show "0 \<le> depth" and "depth \<le> max_depth" by simp_all
next
  from crawl_body_queue [of L S kws max_depth url depth "st\<lparr>queue := rest\<rparr>"]
  show "\<exists>new. queue (snd (crawl_body L S kws max_depth url depth (st\<lparr>queue := rest\<rparr>))) = rest @ new
             \<and> (new \<noteq> [] \<longrightarrow> depth < max_depth) \<and> (\<forall>(u, k) \<in> set new. k = depth + 1)"
    by simp
next
  from reachable_depth_inv [OF reach]
  show "\<forall>(u, k) \<in> set (queue st). 0 \<le> k \<and> (k = 0 \<or> k \<le> max_depth)"
    by (simp add: depth_inv_def)
qed

text \<open>
  C4 at the start of a search: with the maximum depth -1 the entry at depth 0 is dropped,
  and with the maximum depth 1 its links are queued at depth 1.
\<close>

theorem depth_bound_witness:
  "crawl_body (demo_lib crawl_web []) demo_scraper [''cat''] (- 1) ''https://x.test'' 0
     ((start_state [''https://x.test''])\<lparr>queue := []\<rparr>)
   = (None, (start_state [''https://x.test''])\<lparr>queue := []\<rparr>)
   \<and> queue (snd (crawl_body (demo_lib crawl_web []) demo_scraper [''cat''] 1 ''https://x.test'' 0
     ((start_state [''https://x.test''])\<lparr>queue := []\<rparr>)))
     = [(''https://x.test/a'', 1), (''https://x.test/a'', 1)]"
proof -
  have reach: "reachable (demo_lib crawl_web []) demo_scraper [''cat''] d 30 [''https://x.test'']
      (start_state [''https://x.test''])" for d
    by (rule reachable.start)
  have head: "queue (start_state [''https://x.test'']) = (''https://x.test'', 0) # []"
    by (simp add: start_state_def)
  have budget: "pages_crawled (start_state [''https://x.test'']) < 30"
    by (simp add: start_state_def)
  from depth_bound [OF reach head budget, of "- 1"]
  have "crawl_body (demo_lib crawl_web []) demo_scraper [''cat''] (- 1) ''https://x.test'' 0
     ((start_state [''https://x.test''])\<lparr>queue := []\<rparr>)
   = (None, (start_state [''https://x.test''])\<lparr>queue := []\<rparr>)"
    by simp
  then show ?thesis
    by (simp add: crawl_web_first_step)
qed

subsection \<open>The count of a keyword\<close>

text \<open>
  The scan of \<open>count_from\<close> finds as many non-overlapping occurrences as there are: a
  list of non-overlapping positions is no longer than its count, and one list is as long.
\<close>

lemma non_overlapping_Cons:
  "non_overlapping sub s (i # ps) =
     (occurs_at sub s i \<and> (\<forall>j \<in> set ps. i < j \<and> i + length sub \<le> j) \<and> non_overlapping sub s ps)"
proof (induction ps arbitrary: i)
  case Nil
  show ?case by simp
next
  case (Cons j js)
  show ?case
    unfolding non_overlapping.simps(3) Cons.IH [of j] by auto
qed

lemma occurs_at_drop:
  assumes "sub \<noteq> []" and "k \<le> i"
  shows "occurs_at sub (drop k s) (i - k) = occurs_at sub s i"
proof -
  from assms(1) have "0 < length sub" by simp
  with assms(2) have "(i - k + length sub \<le> length s - k) = (i + length sub \<le> length s)"
    by arith
  with assms(2) show ?thesis
    by (simp add: occurs_at_def)
qed

lemma non_overlapping_drop:
  assumes "sub \<noteq> []" and "\<forall>i \<in> set ps. k \<le> i"
  shows "non_overlapping sub (drop k s) (map (\<lambda>i. i - k) ps) = non_overlapping sub s ps"
  using assms
proof (induction ps)
  case Nil
  show ?case by simp
next
  case (Cons p ps)
  then have "k \<le> p" and rest: "\<forall>i \<in> set ps. k \<le> i" by simp_all
  have "(\<forall>j \<in> set ps. p - k < j - k \<and> p - k + length sub \<le> j - k)
        = (\<forall>j \<in> set ps. p < j \<and> p + length sub \<le> j)"
    using \<open>k \<le> p\<close> rest by (auto; fastforce)
  with Cons.IH [OF Cons.prems(1) rest] \<open>k \<le> p\<close> Cons.prems(1) show ?case
    by (simp add: non_overlapping_Cons occurs_at_drop)
qed

lemma count_from_upper:
  assumes "sub \<noteq> []" and "non_overlapping sub s ps"
  shows "length ps \<le> count_from sub s"
  using assms
proof (induction sub s arbitrary: ps rule: count_from.induct)
  case (1 sub)
  then show ?case
    by (cases ps) (auto simp: non_overlapping_Cons occurs_at_def)
next
  case (2 sub c cs)
  let ?s = "c # cs"
  let ?m = "length sub"
  show ?case
  proof (cases "take ?m ?s = sub")
    case True
    show ?thesis
    proof (cases ps)
      case Nil
      then show ?thesis by simp
    next
      case (Cons p ps')
      with "2.prems" have far: "\<forall>j \<in> set ps'. ?m \<le> j" and tail: "non_overlapping sub ?s ps'"
        by (auto simp: non_overlapping_Cons)
      from non_overlapping_drop [OF "2.prems"(1) far, of ?s] tail
      have "non_overlapping sub (drop ?m ?s) (map (\<lambda>i. i - ?m) ps')"
        by simp
      with "2.IH"(1) [of "map (\<lambda>i. i - ?m) ps'"] "2.prems"(1) True
      have "length ps' \<le> count_from sub (drop ?m ?s)"
        by simp
      with Cons True "2.prems"(1) show ?thesis
        by simp
    qed
  next
    case False
    have pos: "\<forall>i \<in> set ps. 1 \<le> i"
    proof
      fix i assume "i \<in> set ps"
      with "2.prems"(2) have "occurs_at sub ?s i"
        by (induction ps) (auto simp: non_overlapping_Cons)
      with False show "1 \<le> i"
        by (cases i) (auto simp: occurs_at_def)
    qed
    from non_overlapping_drop [OF "2.prems"(1) pos, of ?s] "2.prems"(2)
    have "non_overlapping sub cs (map (\<lambda>i. i - 1) ps)"
      by simp
    with "2.IH"(2) [of "map (\<lambda>i. i - 1) ps"] "2.prems"(1) False
    have "length ps \<le> count_from sub cs"
      by simp
    with False show ?thesis
      by simp
  qed
qed

lemma count_from_attained:
  assumes "sub \<noteq> []"
  shows "\<exists>ps. non_overlapping sub s ps \<and> length ps = count_from sub s"
  using assms
proof (induction sub s rule: count_from.induct)
  case (1 sub)
  have "non_overlapping sub [] []" by simp
  then show ?case by fastforce
next
  case (2 sub c cs)
  let ?s = "c # cs"
  let ?m = "length sub"
  show ?case
  proof (cases "take ?m ?s = sub")
    case True
    with "2.IH"(1) "2.prems" obtain ps
      where ps: "non_overlapping sub (drop ?m ?s) ps" "length ps = count_from sub (drop ?m ?s)"
      by auto
    let ?qs = "map (\<lambda>i. i + ?m) ps"
    have "map (\<lambda>i. i - ?m) ?qs = ps"
      by (simp add: comp_def)
    with non_overlapping_drop [OF "2.prems", of ?qs ?m ?s] ps(1)
    have shifted: "non_overlapping sub ?s ?qs"
      by simp
    from arg_cong [OF True, of length] have "?m \<le> length ?s"
      by (simp add: min_def split: if_splits)
    with True have "occurs_at sub ?s 0"
      by (simp add: occurs_at_def)
    moreover from "2.prems" have "\<forall>j \<in> set ?qs. 0 < j \<and> 0 + ?m \<le> j"
      by auto
    ultimately have "non_overlapping sub ?s (0 # ?qs)"
      using shifted by (simp add: non_overlapping_Cons)
    moreover have "length (0 # ?qs) = count_from sub ?s"
      using True "2.prems" ps(2) by simp
    ultimately show ?thesis by blast
  next
    case False
    with "2.IH"(2) "2.prems" obtain ps
      where ps: "non_overlapping sub cs ps" "length ps = count_from sub cs"
      by auto
    let ?qs = "map (\<lambda>i. i + 1) ps"
    have "map (\<lambda>i. i - 1) ?qs = ps"
      by (simp add: comp_def)
    with non_overlapping_drop [OF "2.prems", of ?qs 1 ?s] ps(1)
    have "non_overlapping sub ?s ?qs"
      by simp
    moreover have "length ?qs = count_from sub ?s"
      using False ps(2) by simp
    ultimately show ?thesis by blast
  qed
qed

lemma non_overlapping_empty_iff:
  "non_overlapping [] s ps = (sorted_wrt (<) ps \<and> (\<forall>i \<in> set ps. i \<le> length s))"
  by (induction ps) (auto simp: non_overlapping_Cons occurs_at_def)

lemma empty_upper:
  assumes "non_overlapping [] s ps"
  shows "length ps \<le> length s + 1"
proof -
  from assms have "distinct ps" and "set ps \<subseteq> {0..length s}"
    by (auto simp: non_overlapping_empty_iff strict_sorted_iff)
  have "length ps = card (set ps)"
    using \<open>distinct ps\<close> by (simp add: distinct_card)
  moreover have "card (set ps) \<le> card {0..length s}"
    using \<open>set ps \<subseteq> {0..length s}\<close> by (intro card_mono) simp_all
  moreover have "card {0..length s} = length s + 1"
    by simp
  ultimately show ?thesis by linarith
qed

lemma empty_attained: "non_overlapping [] s [0..<length s + 1]"
proof -
  have "sorted_wrt (<) [0..<length s + 1]"
    by (rule sorted_wrt_upt)
  moreover have "\<forall>i \<in> set [0..<length s + 1]. i \<le> length s"
    by auto
  ultimately show ?thesis
    unfolding non_overlapping_empty_iff by blast
qed

lemma most_non_overlapping_str_count: "most_non_overlapping sub s (str_count s sub)"
proof (cases "sub = []")
  case True
  have "int (length [0..<length s + 1]) = int (length s) + 1"
    by simp
  with empty_attained [of s] empty_upper [of s] True show ?thesis
    unfolding most_non_overlapping_def str_count_def by fastforce
next
  case False
  with count_from_attained [OF False, of s] count_from_upper [OF False, of s] show ?thesis
    unfolding most_non_overlapping_def str_count_def by fastforce
qed

lemma search_hits_inv:
  "hits_inv L S kws (snd (crawl_loop L S kws max_depth max_pages (start_state start_urls)))"
proof -
  have "hits_inv L S kws (start_state start_urls)"
    by (simp add: hits_inv_def start_state_def)
  then show ?thesis
    by (rule crawl_loop_invariant) (rule hits_inv_step)
qed

lemma search_returns:
  assumes "search_keywords_across_web L S kws start_urls max_depth max_pages = (Inr res, evs)"
  shows "res = results (snd (crawl_loop L S kws max_depth max_pages (start_state start_urls)))"
    and "evs = events (snd (crawl_loop L S kws max_depth max_pages (start_state start_urls)))"
  using assms
  by (auto simp: search_keywords_across_web_def split: prod.splits option.splits)

lemma case_web_run:
  "search_keywords_across_web (demo_lib case_web []) demo_scraper [''cAt''] [''https://x.test''] 0 30
     = (Inr [\<lparr>hit_url = ''https://x.test'', hit_keyword = ''cAt'', hit_count = 2,
               hit_type = ''keyword_search''\<rparr>],
        [RobotsRead ''https://x.test/robots.txt'', HttpGet ''https://x.test'', Sleep 1])"
  by code_simp

lemma case_web_page:
  "fst (get_page (demo_lib case_web []) demo_scraper ''https://x.test'')
   = Inr (Some (demo_text_page ''Category CAT'' []))"
  by code_simp

text \<open>
  C10. When the search returns, the count of every record is the count, by
  \<^verbatim>\<open>str.count\<close>, of the keyword lowered by \<^verbatim>\<open>str.lower\<close> in the text of the fetched
  page lowered by \<^verbatim>\<open>str.lower\<close>,
  which is the number of non-overlapping occurrences of the one as a substring of the
  other: occurrences inside longer words count as any other.
\<close>

theorem keyword_count_non_overlapping:
  assumes "search_keywords_across_web L S kws start_urls max_depth max_pages = (Inr res, evs)"
    and "r \<in> set res"
  shows "\<exists>soup. fst (get_page L S (hit_url r)) = Inr (Some soup)
           \<and> hit_count r = str_count (str_lower L (soup_get_text L soup)) (str_lower L (hit_keyword r))
           \<and> most_non_overlapping (str_lower L (hit_keyword r)) (str_lower L (soup_get_text L soup)) (hit_count r)"
proof -
  from search_hits_inv [of L S kws max_depth max_pages start_urls] search_returns [OF assms(1)] assms(2)
  obtain soup where "fst (get_page L S (hit_url r)) = Inr (Some soup)"
    and "hit_count r = str_count (str_lower L (soup_get_text L soup)) (str_lower L (hit_keyword r))"
    unfolding hits_inv_def by blast
  then show ?thesis
    using most_non_overlapping_str_count [of "str_lower L (hit_keyword r)" "str_lower L (soup_get_text L soup)"]
    by auto
qed

text \<open>
  C10 at a page with the text \<open>Category CAT\<close> and the keyword \<open>cAt\<close>: the count is
  2, one occurrence inside a longer word, both found only after lowering.
\<close>

theorem keyword_count_non_overlapping_witness:
  "search_keywords_across_web (demo_lib case_web []) demo_scraper [''cAt''] [''https://x.test''] 0 30
     = (Inr [\<lparr>hit_url = ''https://x.test'', hit_keyword = ''cAt'', hit_count = 2,
               hit_type = ''keyword_search''\<rparr>],
        [RobotsRead ''https://x.test/robots.txt'', HttpGet ''https://x.test'', Sleep 1])
   \<and> most_non_overlapping ''cat'' ''category cat'' 2"
proof -
  let ?r = "\<lparr>hit_url = ''https://x.test'', hit_keyword = ''cAt'', hit_count = 2,
             hit_type = ''keyword_search''\<rparr>"
  have mem: "?r \<in> set [?r]"
    by simp
  from keyword_count_non_overlapping [OF case_web_run mem]
  have "most_non_overlapping (demo_lower ''cAt'') (demo_lower ''Category CAT'') 2"
    by (simp add: case_web_page) (simp add: demo_lib_def demo_text_page_def)
  moreover have "demo_lower ''cAt'' = ''cat''" and "demo_lower ''Category CAT'' = ''category cat''"
    by code_simp+
  ultimately show ?thesis
    using case_web_run by simp
qed

end
